theory Spec2Isabelle
  imports Main "HOL-Library.Word" "HOL-Library.Signed_Division" "HOL-Library.Monad_Syntax"
    "HOL-Library.Multiset"
begin

unbundle bit_operations_syntax

section \<open>Data model\<close>

text \<open>
  The header \<^verbatim>\<open>arrays_util.h\<close> works on caller-owned buffers of C \<^verbatim>\<open>int\<close>, passed as a
  pointer and a length.

  \<^item> An element is a 32-bit two's complement value: \<open>32 word\<close>. The C comparisons
    \<^verbatim>\<open><\<close> and \<^verbatim>\<open>>\<close> on \<^verbatim>\<open>int\<close> are the signed ones, \<open><s\<close>; addition wraps.
  \<^item> A buffer is the list of its cells; a pointer that may be \<^verbatim>\<open>NULL\<close> is an
    \<open>option\<close> of a buffer.
  \<^item> Indices, lengths and counters are \<open>int\<close>: they can be negative in the source
    (\<^verbatim>\<open>high = n - 1\<close> for \<open>n = 0\<close>, \<^verbatim>\<open>Pivot.left - 1\<close>). Their arithmetic is that of
    the integers, which is the C arithmetic as long as no intermediate value leaves
    the range of a C \<^verbatim>\<open>int\<close>. Where a sum of two arguments can leave it on buffers
    that exist (\<^verbatim>\<open>size1 + size2\<close> in \<^verbatim>\<open>concatenateTwoArrays\<close>), the overflow is
    undefined behaviour in C and \<open>None\<close> in the model.
  \<^item> The source checks no bound. A read or write outside the buffer and a remainder
    by zero are undefined behaviour in C; every operation returns an \<open>option\<close>, and
    \<open>None\<close> is that undefined behaviour.
  \<^item> A function that mutates its argument in place returns the buffer after the call.
\<close>

type_synonym cint = "32 word"

definition rd :: "cint list \<Rightarrow> int \<Rightarrow> cint option" where
  "rd arr i = (if 0 \<le> i \<and> i < int (length arr) then Some (arr ! nat i) else None)"

definition wr :: "cint list \<Rightarrow> int \<Rightarrow> cint \<Rightarrow> cint list option" where
  "wr arr i v = (if 0 \<le> i \<and> i < int (length arr) then Some (arr[nat i := v]) else None)"

section \<open>rotate\<close>

text \<open>
  \<^verbatim>\<open>
  k = k % n;
  for (int i = 0; i < k; ++i) {
      int temp = arr[0];
      for (int j = 0; j < n - 1; ++j) { arr[j] = arr[j + 1]; }
      arr[n - 1] = temp;
  }
  return arr;
  \<close>
  The C remainder truncates towards zero (\<open>smod\<close>); \<^verbatim>\<open>k % 0\<close> is undefined.
\<close>

function rotate_shift :: "cint list \<Rightarrow> int \<Rightarrow> int \<Rightarrow> cint list option" where
  "rotate_shift arr n j =
     (if j < n - 1 then do {
        v \<leftarrow> rd arr (j + 1);
        arr' \<leftarrow> wr arr j v;
        rotate_shift arr' n (j + 1)
      } else Some arr)"
  by pat_completeness auto
termination
  by (relation "measure (\<lambda>(arr, n, j). nat (n - 1 - j))") auto

declare rotate_shift.simps [simp del]

function rotate_loop :: "cint list \<Rightarrow> int \<Rightarrow> int \<Rightarrow> int \<Rightarrow> cint list option" where
  "rotate_loop arr n k i =
     (if i < k then do {
        temp \<leftarrow> rd arr 0;
        arr1 \<leftarrow> rotate_shift arr n 0;
        arr2 \<leftarrow> wr arr1 (n - 1) temp;
        rotate_loop arr2 n k (i + 1)
      } else Some arr)"
  by pat_completeness auto
termination
  by (relation "measure (\<lambda>(arr, n, k, i). nat (k - i))") auto

declare rotate_loop.simps [simp del]

definition rotate :: "cint list \<Rightarrow> int \<Rightarrow> int \<Rightarrow> cint list option" where
  "rotate arr n k = (if n = 0 then None else rotate_loop arr n (k smod n) 0)"

section \<open>searchLIN\<close>

text \<open>
  \<^verbatim>\<open>
  int index = -1;
  for (int i = 0; i < n && index < 0; ++i) { if (arr[i] == sr) { index = i; } }
  return index;
  \<close>
\<close>

function searchLIN_loop :: "cint list \<Rightarrow> int \<Rightarrow> cint \<Rightarrow> int \<Rightarrow> int \<Rightarrow> int option" where
  "searchLIN_loop arr n sr i index =
     (if i < n \<and> index < 0 then do {
        a \<leftarrow> rd arr i;
        searchLIN_loop arr n sr (i + 1) (if a = sr then i else index)
      } else Some index)"
  by pat_completeness auto
termination
  by (relation "measure (\<lambda>(arr, n, sr, i, index). nat (n - i))") auto

declare searchLIN_loop.simps [simp del]

definition searchLIN :: "cint list \<Rightarrow> int \<Rightarrow> cint \<Rightarrow> int option" where
  "searchLIN arr n sr = searchLIN_loop arr n sr 0 (- 1)"

section \<open>searchBIN\<close>

text \<open>
  \<^verbatim>\<open>
  int start = 0, end = n, mid;
  int index = -1;
  while (start < end && index != mid) {
      mid = (start + end) / 2;
      if (arr[mid] == sr) index = mid;
      else if (arr[mid] < sr) start = mid + 1;
      else end = mid - 1;
  }
  return index;
  \<close>
  \<^verbatim>\<open>mid\<close> is read by the first test of the loop before anything is assigned to it:
  its first value is whatever the stack holds, the parameter \<open>mid0\<close> of the model.
  The C division truncates towards zero (\<open>sdiv\<close>).
\<close>

function searchBIN_loop ::
  "cint list \<Rightarrow> cint \<Rightarrow> int \<Rightarrow> int \<Rightarrow> int \<Rightarrow> int \<Rightarrow> int option" where
  "searchBIN_loop arr sr start end mid index =
     (if start < end \<and> index \<noteq> mid then
        (let mid' = (start + end) sdiv 2 in do {
           a \<leftarrow> rd arr mid';
           if a = sr then searchBIN_loop arr sr start end mid' mid'
           else if a <s sr then searchBIN_loop arr sr (mid' + 1) end mid' index
           else searchBIN_loop arr sr start (mid' - 1) mid' index
         })
      else Some index)"
  by pat_completeness auto
termination
proof (relation "measure (\<lambda>(arr, sr, start, end, mid, index).
    2 * nat (end - start) + (if index = mid then 0 else 1))", goal_cases)
  case 1
  show ?case by simp
next
  case (2 arr sr start "end" mid index mid' a)
  then show ?case by simp
next
  case (3 arr sr start "end" mid index mid' a)
  then show ?case
    by (auto simp: signed_divide_int_def sgn_if abs_if split: if_splits)
next
  case (4 arr sr start "end" mid index mid' a)
  then show ?case
    by (auto simp: signed_divide_int_def sgn_if abs_if split: if_splits)
qed

declare searchBIN_loop.simps [simp del]

definition searchBIN :: "int \<Rightarrow> cint list \<Rightarrow> int \<Rightarrow> cint \<Rightarrow> int option" where
  "searchBIN mid0 arr n sr = searchBIN_loop arr sr 0 n mid0 (- 1)"

section \<open>reverse\<close>

text \<open>
  \<^verbatim>\<open>
  for (int i = 0; i < n / 2; ++i) {
      int temp = arr[i];
      arr[i] = arr[n - i - 1];
      arr[n - i - 1] = temp;
  }
  return arr;
  \<close>
\<close>

function reverse_loop :: "cint list \<Rightarrow> int \<Rightarrow> int \<Rightarrow> cint list option" where
  "reverse_loop arr n i =
     (if i < n sdiv 2 then do {
        temp \<leftarrow> rd arr i;
        v \<leftarrow> rd arr (n - i - 1);
        arr1 \<leftarrow> wr arr i v;
        arr2 \<leftarrow> wr arr1 (n - i - 1) temp;
        reverse_loop arr2 n (i + 1)
      } else Some arr)"
  by pat_completeness auto
termination
  by (relation "measure (\<lambda>(arr, n, i). nat (n sdiv 2 - i))") auto

declare reverse_loop.simps [simp del]

definition reverse :: "cint list \<Rightarrow> int \<Rightarrow> cint list option" where
  "reverse arr n = reverse_loop arr n 0"

section \<open>MAX_count\<close>

text \<open>
  \<^verbatim>\<open>
  int maximum = arr[0];
  int count = 0;
  for (int i = 1; i < n; ++i) {
      if (arr[i] > maximum) { count = 1; }
      else if (arr[i] == maximum) count++;
  }
  return count;
  \<close>
  The loop never assigns \<^verbatim>\<open>maximum\<close>. The counter \<^verbatim>\<open>count\<close> is \<open>cnt\<close> in the model.
\<close>

function MAX_count_loop :: "cint list \<Rightarrow> int \<Rightarrow> cint \<Rightarrow> int \<Rightarrow> int \<Rightarrow> int option" where
  "MAX_count_loop arr n maximum i cnt =
     (if i < n then do {
        a \<leftarrow> rd arr i;
        if maximum <s a then MAX_count_loop arr n maximum (i + 1) 1
        else if a = maximum then MAX_count_loop arr n maximum (i + 1) (cnt + 1)
        else MAX_count_loop arr n maximum (i + 1) cnt
      } else Some cnt)"
  by pat_completeness auto
termination
  by (relation "measure (\<lambda>(arr, n, maximum, i, cnt). nat (n - i))") auto

declare MAX_count_loop.simps [simp del]

definition MAX_count :: "cint list \<Rightarrow> int \<Rightarrow> int option" where
  "MAX_count arr n = do {
     maximum \<leftarrow> rd arr 0;
     MAX_count_loop arr n maximum 1 0
   }"

section \<open>Dual-pivot quicksort\<close>

text \<open>
  \<^verbatim>\<open>struct record { int left; int right; };\<close> holds the two pivot positions that
  \<^verbatim>\<open>pivotPartition\<close> writes through its last parameter.
\<close>

record pivot_record =
  left :: int
  right :: int

text \<open>
  \<^verbatim>\<open>
  void swapNumbers(int arr[], int index1, int index2) {
      int temp = arr[index1];
      arr[index1] = arr[index2];
      arr[index2] = temp;
  }
  \<close>
\<close>

definition swapNumbers :: "cint list \<Rightarrow> int \<Rightarrow> int \<Rightarrow> cint list option" where
  "swapNumbers arr index1 index2 = do {
     temp \<leftarrow> rd arr index1;
     v \<leftarrow> rd arr index2;
     arr1 \<leftarrow> wr arr index1 v;
     wr arr1 index2 temp
   }"

text \<open>
  \<^verbatim>\<open>
  if (arr[low] > arr[high]) { swapNumbers(arr, low, high); }
  int leftPivot = low + 1;
  int rightPivot = high - 1;
  int iterator = low + 1;
  while (iterator <= rightPivot) {
      if (arr[iterator] < arr[low])       swapNumbers(arr, iterator++, leftPivot++);
      else if (arr[iterator] > arr[high]) swapNumbers(arr, iterator, rightPivot--);
      else                                iterator++;
  }
  swapNumbers(arr, low, --leftPivot);
  swapNumbers(arr, high, ++rightPivot);
  pivot->left = leftPivot;
  pivot->right = rightPivot;
  \<close>
\<close>

function pivotPartition_loop ::
  "cint list \<Rightarrow> int \<Rightarrow> int \<Rightarrow> int \<Rightarrow> int \<Rightarrow> int \<Rightarrow> (cint list \<times> int \<times> int) option" where
  "pivotPartition_loop arr low high leftPivot rightPivot iterator =
     (if iterator \<le> rightPivot then do {
        x \<leftarrow> rd arr iterator;
        p \<leftarrow> rd arr low;
        if x <s p then do {
          arr' \<leftarrow> swapNumbers arr iterator leftPivot;
          pivotPartition_loop arr' low high (leftPivot + 1) rightPivot (iterator + 1)
        } else do {
          q \<leftarrow> rd arr high;
          if q <s x then do {
            arr' \<leftarrow> swapNumbers arr iterator rightPivot;
            pivotPartition_loop arr' low high leftPivot (rightPivot - 1) iterator
          } else pivotPartition_loop arr low high leftPivot rightPivot (iterator + 1)
        }
      } else Some (arr, leftPivot, rightPivot))"
  by pat_completeness auto
termination
  by (relation "measure (\<lambda>(arr, low, high, leftPivot, rightPivot, iterator).
        nat (rightPivot + 1 - iterator))") auto

declare pivotPartition_loop.simps [simp del]

definition pivotPartition :: "cint list \<Rightarrow> int \<Rightarrow> int \<Rightarrow> (cint list \<times> pivot_record) option" where
  "pivotPartition arr low high = do {
     a \<leftarrow> rd arr low;
     b \<leftarrow> rd arr high;
     arr1 \<leftarrow> (if b <s a then swapNumbers arr low high else Some arr);
     (arr2, leftPivot, rightPivot) \<leftarrow>
        pivotPartition_loop arr1 low high (low + 1) (high - 1) (low + 1);
     arr3 \<leftarrow> swapNumbers arr2 low (leftPivot - 1);
     arr4 \<leftarrow> swapNumbers arr3 high (rightPivot + 1);
     Some (arr4, \<lparr>left = leftPivot - 1, right = rightPivot + 1\<rparr>)
   }"

text \<open>
  The recursion of the sort goes through the positions \<^verbatim>\<open>pivotPartition\<close> reports, so
  its termination rests on where they lie: strictly ordered, and inside the range.
\<close>

lemma pivotPartition_loop_bounds:
  "pivotPartition_loop arr low high lp rp it = Some (arr', lp', rp') \<Longrightarrow>
   lp \<le> it \<Longrightarrow> it \<le> rp + 1 \<Longrightarrow> lp \<le> lp' \<and> lp' \<le> rp' + 1 \<and> rp' \<le> rp"
proof (induction arr low high lp rp it rule: pivotPartition_loop.induct)
  case (1 arr low high leftPivot rightPivot iterator)
  show ?case
  proof (cases "iterator \<le> rightPivot")
    case False
    with "1.prems" show ?thesis
      by (simp add: pivotPartition_loop.simps [of arr])
  next
    case True
    from "1.prems"(1) True "1.IH" "1.prems"(2,3) show ?thesis
      apply (subst (asm) pivotPartition_loop.simps)
      apply (simp split: bind_splits if_splits)
        apply force+
      done
  qed
qed

lemma pivotPartition_bounds:
  assumes "pivotPartition arr low high = Some (arr', pv)" and "low < high"
  shows "low \<le> left pv \<and> left pv < right pv \<and> right pv \<le> high"
  using assms unfolding pivotPartition_def
  by (auto split: bind_splits if_splits dest!: pivotPartition_loop_bounds)

text \<open>
  \<^verbatim>\<open>
  struct record Pivot;
  Pivot.left = -1;
  Pivot.right = -1;
  if (low >= high) return;
  pivotPartition(arr, low, high, &Pivot);
  dualPivotQuickSort(arr, low, Pivot.left - 1);
  dualPivotQuickSort(arr, Pivot.left + 1, Pivot.right - 1);
  dualPivotQuickSort(arr, Pivot.right + 1, high);
  \<close>
\<close>

function dualPivotQuickSort :: "cint list \<Rightarrow> int \<Rightarrow> int \<Rightarrow> cint list option" where
  "dualPivotQuickSort arr low high =
     (if low \<ge> high then Some arr
      else do {
        (arr1, Pivot) \<leftarrow> pivotPartition arr low high;
        arr2 \<leftarrow> dualPivotQuickSort arr1 low (left Pivot - 1);
        arr3 \<leftarrow> dualPivotQuickSort arr2 (left Pivot + 1) (right Pivot - 1);
        dualPivotQuickSort arr3 (right Pivot + 1) high
      })"
  by pat_completeness auto
termination
proof (relation "measure (\<lambda>(arr, low, high). nat (high - low))", goal_cases)
  case 1
  show ?case by simp
next
  case (2 arr low high x arr1 Pivot)
  then show ?case by (auto dest!: pivotPartition_bounds)
next
  case (3 arr low high x arr1 Pivot arr2)
  then show ?case by (auto dest!: pivotPartition_bounds)
next
  case (4 arr low high x arr1 Pivot arr2 arr3)
  then show ?case by (auto dest!: pivotPartition_bounds)
qed

declare dualPivotQuickSort.simps [simp del]

section \<open>sumAllElements\<close>

text \<open>
  \<^verbatim>\<open>
  int sum = 0;
  for (int i = 0; i < n; i++) { sum = sum + arr[i]; }
  return 0;
  \<close>
  The sum (\<open>acc\<close> in the model) is a C \<^verbatim>\<open>int\<close>; its addition is modelled as wrapping.
\<close>

function sumAllElements_loop :: "cint list \<Rightarrow> int \<Rightarrow> int \<Rightarrow> cint \<Rightarrow> cint option" where
  "sumAllElements_loop arr n i acc =
     (if i < n then do {
        a \<leftarrow> rd arr i;
        sumAllElements_loop arr n (i + 1) (acc + a)
      } else Some acc)"
  by pat_completeness auto
termination
  by (relation "measure (\<lambda>(arr, n, i, acc). nat (n - i))") auto

declare sumAllElements_loop.simps [simp del]

definition sumAllElements :: "cint list \<Rightarrow> int \<Rightarrow> cint option" where
  "sumAllElements arr n = do {
     acc \<leftarrow> sumAllElements_loop arr n 0 0;
     Some 0
   }"

section \<open>checkForSort\<close>

text \<open>
  \<^verbatim>\<open>
  for (int i = 1; i < n; i++) { if (arr[i] < arr[i-1]) return false; }
  return true;
  \<close>
\<close>

function checkForSort_loop :: "cint list \<Rightarrow> int \<Rightarrow> int \<Rightarrow> bool option" where
  "checkForSort_loop arr n i =
     (if i < n then do {
        a \<leftarrow> rd arr i;
        b \<leftarrow> rd arr (i - 1);
        if a <s b then Some False else checkForSort_loop arr n (i + 1)
      } else Some True)"
  by pat_completeness auto
termination
  by (relation "measure (\<lambda>(arr, n, i). nat (n - i))") auto

declare checkForSort_loop.simps [simp del]

definition checkForSort :: "cint list \<Rightarrow> int \<Rightarrow> bool option" where
  "checkForSort arr n = checkForSort_loop arr n 1"

section \<open>concatenateTwoArrays\<close>

text \<open>
  \<^verbatim>\<open>
  int* new_array = (int*)malloc((size1+size2)*sizeof(int));
  int i = 0;
  for (; i < size1 && i < size2; i++) {
      new_array[i] = arr1[i];
      new_array[size1+i] = arr2[i];
  }
  while (i < size1) { new_array[i] = arr1[i]; i++; }
  while (i < size2) { new_array[size1+i] = arr2[i]; i++; }
  return new_array;
  \<close>
  \<^verbatim>\<open>size1+size2\<close> is an addition of two C \<^verbatim>\<open>int\<close>s: \<open>add_int\<close>, undefined when the
  sum leaves \<open>INT_MIN .. INT_MAX\<close> (compiled code wraps it to a negative size, the
  allocation fails and the first write goes through \<^verbatim>\<open>NULL\<close>). Inside the loops
  \<^verbatim>\<open>size1+i\<close> lies between \<^verbatim>\<open>size1\<close> and that sum.

  \<^verbatim>\<open>malloc\<close> hands out a block whose cells hold anything: \<open>junk\<close> gives the value
  each cell of the fresh block starts with. For a size in range the allocation is
  taken to succeed; the block has \<open>size1 + size2\<close> cells (none when that is negative).
\<close>

definition INT_MAX :: int where
  "INT_MAX = 2147483647"

definition INT_MIN :: int where
  "INT_MIN = - 2147483648"

definition add_int :: "int \<Rightarrow> int \<Rightarrow> int option" where
  "add_int a b = (if INT_MIN \<le> a + b \<and> a + b \<le> INT_MAX then Some (a + b) else None)"

definition malloc_ints :: "(nat \<Rightarrow> cint) \<Rightarrow> int \<Rightarrow> cint list" where
  "malloc_ints junk n = map junk [0 ..< nat n]"

function concat_both ::
  "cint list \<Rightarrow> cint list \<Rightarrow> int \<Rightarrow> cint list \<Rightarrow> int \<Rightarrow> int \<Rightarrow> (cint list \<times> int) option" where
  "concat_both new_array arr1 size1 arr2 size2 i =
     (if i < size1 \<and> i < size2 then do {
        a \<leftarrow> rd arr1 i;
        new1 \<leftarrow> wr new_array i a;
        b \<leftarrow> rd arr2 i;
        new2 \<leftarrow> wr new1 (size1 + i) b;
        concat_both new2 arr1 size1 arr2 size2 (i + 1)
      } else Some (new_array, i))"
  by pat_completeness auto
termination
  by (relation "measure (\<lambda>(new_array, arr1, size1, arr2, size2, i). nat (size1 - i))") auto

declare concat_both.simps [simp del]

function concat_first :: "cint list \<Rightarrow> cint list \<Rightarrow> int \<Rightarrow> int \<Rightarrow> (cint list \<times> int) option" where
  "concat_first new_array arr1 size1 i =
     (if i < size1 then do {
        a \<leftarrow> rd arr1 i;
        new1 \<leftarrow> wr new_array i a;
        concat_first new1 arr1 size1 (i + 1)
      } else Some (new_array, i))"
  by pat_completeness auto
termination
  by (relation "measure (\<lambda>(new_array, arr1, size1, i). nat (size1 - i))") auto

declare concat_first.simps [simp del]

function concat_second ::
  "cint list \<Rightarrow> int \<Rightarrow> cint list \<Rightarrow> int \<Rightarrow> int \<Rightarrow> (cint list \<times> int) option" where
  "concat_second new_array size1 arr2 size2 i =
     (if i < size2 then do {
        b \<leftarrow> rd arr2 i;
        new1 \<leftarrow> wr new_array (size1 + i) b;
        concat_second new1 size1 arr2 size2 (i + 1)
      } else Some (new_array, i))"
  by pat_completeness auto
termination
  by (relation "measure (\<lambda>(new_array, size1, arr2, size2, i). nat (size2 - i))") auto

declare concat_second.simps [simp del]

definition concatenateTwoArrays ::
  "(nat \<Rightarrow> cint) \<Rightarrow> cint list \<Rightarrow> int \<Rightarrow> cint list \<Rightarrow> int \<Rightarrow> cint list option" where
  "concatenateTwoArrays junk arr1 size1 arr2 size2 = do {
     total \<leftarrow> add_int size1 size2;
     (new1, i1) \<leftarrow> concat_both (malloc_ints junk total) arr1 size1 arr2 size2 0;
     (new2, i2) \<leftarrow> concat_first new1 arr1 size1 i1;
     (new3, i3) \<leftarrow> concat_second new2 size1 arr2 size2 i2;
     Some new3
   }"

section \<open>firstIndexOf\<close>

text \<open>
  \<^verbatim>\<open>
  for (int i = 0; i < n; i++) { if (arr[i] == element) return i; }
  return -1;
  \<close>
\<close>

function firstIndexOf_loop :: "cint list \<Rightarrow> int \<Rightarrow> cint \<Rightarrow> int \<Rightarrow> int option" where
  "firstIndexOf_loop arr n element i =
     (if i < n then do {
        a \<leftarrow> rd arr i;
        if a = element then Some i else firstIndexOf_loop arr n element (i + 1)
      } else Some (- 1))"
  by pat_completeness auto
termination
  by (relation "measure (\<lambda>(arr, n, element, i). nat (n - i))") auto

declare firstIndexOf_loop.simps [simp del]

definition firstIndexOf :: "cint list \<Rightarrow> int \<Rightarrow> cint \<Rightarrow> int option" where
  "firstIndexOf arr n element = firstIndexOf_loop arr n element 0"

section \<open>getHashCodeOf\<close>

text \<open>
  \<^verbatim>\<open>
  if (arr==NULL) return 0;
  unsigned long long hash = 1;
  for (int i = 0; i < n; i++) {
      int val = arr[i];
      val = val ^ (val>>31);
      hash = hash * 19 + val ;
  }
  return hash;
  \<close>
  \<^verbatim>\<open>val>>31\<close> on a signed \<^verbatim>\<open>int\<close> is the arithmetic shift (\<open>signed_drop_bit\<close>). In
  \<^verbatim>\<open>hash * 19 + val\<close> the \<^verbatim>\<open>int\<close> is converted to \<^verbatim>\<open>unsigned long long\<close>, which
  keeps its value modulo \<open>2^64\<close> (\<open>scast\<close>); the arithmetic is that of \<open>64 word\<close>.
\<close>

function getHashCodeOf_loop :: "cint list \<Rightarrow> int \<Rightarrow> int \<Rightarrow> 64 word \<Rightarrow> 64 word option" where
  "getHashCodeOf_loop arr n i hash =
     (if i < n then do {
        val \<leftarrow> rd arr i;
        let val' = val XOR (signed_drop_bit 31 val) in
        getHashCodeOf_loop arr n (i + 1) (hash * 19 + scast val')
      } else Some hash)"
  by pat_completeness auto
termination
  by (relation "measure (\<lambda>(arr, n, i, hash). nat (n - i))") auto

declare getHashCodeOf_loop.simps [simp del]

definition getHashCodeOf :: "cint list option \<Rightarrow> int \<Rightarrow> 64 word option" where
  "getHashCodeOf arr n =
     (case arr of
        None \<Rightarrow> Some 0
      | Some a \<Rightarrow> getHashCodeOf_loop a n 0 1)"

section \<open>The specification's wording\<close>

text \<open>
  The hash as the specification words it: \<open>h = 1\<close>, and for each value \<open>v\<close> in order
  \<open>h = h * 19 + (v xor (v arithmetic-shift-right 31))\<close>, in an unsigned 64-bit
  accumulator that wraps modulo \<open>2^64\<close>. The values are the integers the array holds.
\<close>

definition hash_step :: "int \<Rightarrow> int \<Rightarrow> int" where
  "hash_step h v = (h * 19 + (v XOR drop_bit 31 v)) mod 2 ^ 64"

definition hashCode_spec :: "int list \<Rightarrow> int" where
  "hashCode_spec vs = foldl hash_step 1 vs"

text \<open>
  The count as the specification words it: a running maximum starts at the first
  value with a count of one occurrence, a strictly larger value becomes the running
  maximum and resets the count to 1, and a value equal to the running maximum
  increments the count.
\<close>

fun getMaxOccurrence_scan :: "int \<Rightarrow> int \<Rightarrow> int list \<Rightarrow> int" where
  "getMaxOccurrence_scan m c [] = c"
| "getMaxOccurrence_scan m c (x # xs) =
     (if m < x then getMaxOccurrence_scan x 1 xs
      else if x = m then getMaxOccurrence_scan m (c + 1) xs
      else getMaxOccurrence_scan m c xs)"

definition getMaxOccurrence_spec :: "int list \<Rightarrow> int option" where
  "getMaxOccurrence_spec vs =
     (case vs of [] \<Rightarrow> None | v # rest \<Rightarrow> Some (getMaxOccurrence_scan v 1 rest))"

section \<open>Predicates of the proofs\<close>

text \<open>
  \<open>first_at arr e i n r\<close>: \<open>r\<close> is the first position of \<open>e\<close> among the cells
  \<open>i, ..., n - 1\<close>, or \<open>-1\<close> when none of them holds \<open>e\<close>.
\<close>

definition first_at :: "cint list \<Rightarrow> cint \<Rightarrow> int \<Rightarrow> int \<Rightarrow> int \<Rightarrow> bool" where
  "first_at arr e i n r \<longleftrightarrow>
     (r = - 1 \<and> (\<forall>j. i \<le> j \<and> j < n \<longrightarrow> arr ! nat j \<noteq> e)) \<or>
     (i \<le> r \<and> r < n \<and> arr ! nat r = e \<and> (\<forall>j. i \<le> j \<and> j < r \<longrightarrow> arr ! nat j \<noteq> e))"

text \<open>The buffer after \<^verbatim>\<open>swapNumbers\<close> on two cells inside it.\<close>

definition swapped :: "cint list \<Rightarrow> nat \<Rightarrow> nat \<Rightarrow> cint list" where
  "swapped arr i j = arr[i := arr ! j, j := arr ! i]"

text \<open>What a call leaves alone: the length, the contents as a multiset, and the cells
  outside \<open>lo..hi\<close>. The bounds are integers, as an empty range can end at \<open>-1\<close>.\<close>

definition frame :: "cint list \<Rightarrow> cint list \<Rightarrow> int \<Rightarrow> int \<Rightarrow> bool" where
  "frame arr arr' lo hi \<longleftrightarrow>
     length arr' = length arr \<and> mset arr' = mset arr \<and>
     (\<forall>k<length arr. int k < lo \<or> hi < int k \<longrightarrow> arr' ! k = arr ! k)"

text \<open>
  The invariant of the scan, for the range \<open>l..h\<close> with the pivots in its two end cells:
  the cells \<open>l+1 ..< lp\<close> are below the left pivot, the cells \<open>lp ..< it\<close> lie between the
  pivots, the cells \<open>rp+1 ..< h\<close> are above the right pivot, and \<open>it .. rp\<close> is still to
  be scanned.
\<close>

definition part_inv :: "cint list \<Rightarrow> nat \<Rightarrow> nat \<Rightarrow> nat \<Rightarrow> nat \<Rightarrow> nat \<Rightarrow> bool" where
  "part_inv arr l h lp rp it \<longleftrightarrow>
     l < h \<and> h < length arr \<and> l + 1 \<le> lp \<and> lp \<le> it \<and> it \<le> rp + 1 \<and> rp + 1 \<le> h \<and>
     (\<forall>k. l < k \<and> k < lp \<longrightarrow> arr ! k <s arr ! l) \<and>
     (\<forall>k. lp \<le> k \<and> k < it \<longrightarrow> \<not> arr ! k <s arr ! l \<and> \<not> arr ! h <s arr ! k) \<and>
     (\<forall>k. rp < k \<and> k < h \<longrightarrow> arr ! h <s arr ! k)"

text \<open>
  What \<^verbatim>\<open>pivotPartition\<close> establishes on \<open>l..h\<close>: the pivots stand at \<open>lf < rt\<close>, the
  cells before \<open>lf\<close> are below the left pivot, the cells after \<open>rt\<close> are above the right
  pivot, and the cells between them lie between the pivots.
\<close>

definition partitioned :: "cint list \<Rightarrow> nat \<Rightarrow> nat \<Rightarrow> nat \<Rightarrow> nat \<Rightarrow> bool" where
  "partitioned arr l h lf rt \<longleftrightarrow>
     l \<le> lf \<and> lf < rt \<and> rt \<le> h \<and> h < length arr \<and>
     (\<forall>k. l \<le> k \<and> k < lf \<longrightarrow> arr ! k <s arr ! lf) \<and>
     (\<forall>k. lf < k \<and> k < rt \<longrightarrow> \<not> arr ! k <s arr ! lf \<and> \<not> arr ! rt <s arr ! k) \<and>
     (\<forall>k. rt < k \<and> k \<le> h \<longrightarrow> arr ! rt <s arr ! k) \<and>
     \<not> arr ! rt <s arr ! lf"

text \<open>A property of every cell of \<open>lo..hi\<close>, and the signed order along \<open>lo..hi\<close>.\<close>

definition all_range :: "cint list \<Rightarrow> int \<Rightarrow> int \<Rightarrow> (cint \<Rightarrow> bool) \<Rightarrow> bool" where
  "all_range arr lo hi P \<longleftrightarrow> (\<forall>k. lo \<le> int k \<and> int k \<le> hi \<and> k < length arr \<longrightarrow> P (arr ! k))"

definition sorted_range :: "cint list \<Rightarrow> int \<Rightarrow> int \<Rightarrow> bool" where
  "sorted_range arr lo hi \<longleftrightarrow>
     (\<forall>i j. lo \<le> int i \<and> i \<le> j \<and> int j \<le> hi \<and> j < length arr \<longrightarrow> sint (arr ! i) \<le> sint (arr ! j))"

section \<open>Reading and writing inside the buffer\<close>

lemma rd_Some: "0 \<le> i \<Longrightarrow> i < int (length arr) \<Longrightarrow> rd arr i = Some (arr ! nat i)"
  by (simp add: rd_def)

lemma wr_Some: "0 \<le> i \<Longrightarrow> i < int (length arr) \<Longrightarrow> wr arr i v = Some (arr[nat i := v])"
  by (simp add: wr_def)

lemma rd_int: "k < length arr \<Longrightarrow> rd arr (int k) = Some (arr ! k)"
  by (simp add: rd_def)

lemma wr_int: "k < length arr \<Longrightarrow> wr arr (int k) v = Some (arr[k := v])"
  by (simp add: wr_def)

section \<open>The behaviour of rotate\<close>

text \<open>
  One pass of the inner loop moves the cells \<open>m+1, ..., n-1\<close> one place down; with the
  saved first cell written at the end, a step of the outer loop is \<open>rotate1\<close>, which
  takes the head of a list to its end. For a buffer of \<open>n \<ge> 1\<close> cells and \<open>k \<ge> 0\<close> the
  call is therefore the rotation to the left by \<open>k mod n\<close>.
\<close>

lemma rotate_shift_nth:
  "j = int m \<Longrightarrow> n = int (length arr) \<Longrightarrow>
   \<exists>arr'. rotate_shift arr n j = Some arr' \<and> length arr' = length arr \<and>
     (\<forall>k<length arr. arr' ! k = (if m \<le> k \<and> k + 1 < length arr then arr ! (k + 1) else arr ! k))"
proof (induction arr n j arbitrary: m rule: rotate_shift.induct)
  case (1 arr n j)
  note p = "1.prems"
  show ?case
  proof (cases "j < n - 1")
    case False
    with p have stop: "\<not> m + 1 < length arr" by simp
    from False have "rotate_shift arr n j = Some arr"
      by (subst rotate_shift.simps) simp
    moreover have "\<forall>k<length arr. arr ! k =
        (if m \<le> k \<and> k + 1 < length arr then arr ! (k + 1) else arr ! k)"
      using stop by auto
    ultimately show ?thesis by simp
  next
    case True
    with p have go: "m + 1 < length arr" "m < length arr" by simp_all
    have "j + 1 = int (m + 1)" using p by simp
    then have r: "rd arr (j + 1) = Some (arr ! (m + 1))"
      using go(1) by (simp only: rd_int)
    define arr1 where "arr1 = arr[m := arr ! (m + 1)]"
    have w: "wr arr j (arr ! (m + 1)) = Some arr1"
      unfolding p(1) arr1_def using go(2) by (rule wr_int)
    have len1: "length arr1 = length arr" by (simp add: arr1_def)
    from "1.IH" [OF True r w \<open>j + 1 = int (m + 1)\<close>] p(2) len1
    obtain arr' where res: "rotate_shift arr1 n (j + 1) = Some arr'"
      and len: "length arr' = length arr1"
      and nth: "\<forall>k<length arr1. arr' ! k =
          (if m + 1 \<le> k \<and> k + 1 < length arr1 then arr1 ! (k + 1) else arr1 ! k)"
      by auto
    have "rotate_shift arr n j = Some arr'"
      using True r w res by (subst rotate_shift.simps) simp
    moreover have "length arr' = length arr" using len len1 by simp
    moreover have "\<forall>k<length arr. arr' ! k =
        (if m \<le> k \<and> k + 1 < length arr then arr ! (k + 1) else arr ! k)"
    proof (intro allI impI)
      fix k assume k: "k < length arr"
      then have k1: "k < length arr1" by (simp add: len1)
      have b: "arr1 ! q = (if q = m then arr ! (m + 1) else arr ! q)" if "q < length arr" for q
        using that by (simp add: arr1_def nth_list_update)
      show "arr' ! k = (if m \<le> k \<and> k + 1 < length arr then arr ! (k + 1) else arr ! k)"
      proof (cases "m + 1 \<le> k \<and> k + 1 < length arr")
        case True
        from nth k1 have "arr' ! k =
            (if m + 1 \<le> k \<and> k + 1 < length arr1 then arr1 ! (k + 1) else arr1 ! k)"
          by blast
        with True have "arr' ! k = arr1 ! (k + 1)" by (simp only: len1 if_True simp_thms)
        also from True have "\<dots> = arr ! (k + 1)" by (simp add: b)
        finally show ?thesis using True by simp
      next
        case False
        from nth k1 have "arr' ! k =
            (if m + 1 \<le> k \<and> k + 1 < length arr1 then arr1 ! (k + 1) else arr1 ! k)"
          by blast
        with False have "arr' ! k = arr1 ! k" by (simp only: len1 if_False simp_thms)
        also from k have "\<dots> = (if k = m then arr ! (m + 1) else arr ! k)" by (rule b)
        finally show ?thesis using False go k by auto
      qed
    qed
    ultimately show ?thesis by blast
  qed
qed

lemma rotate_step_rotate1:
  assumes "n = int (length arr)" and "0 < n"
  shows "\<exists>arr1. rd arr 0 = Some (arr ! 0) \<and> rotate_shift arr n 0 = Some arr1 \<and>
    wr arr1 (n - 1) (arr ! 0) = Some (rotate1 arr)"
proof -
  from assms have L: "0 < length arr" by simp
  from rotate_shift_nth [of 0 0 n arr] assms
  obtain arr1 where s: "rotate_shift arr n 0 = Some arr1" and len: "length arr1 = length arr"
    and nth: "\<forall>k<length arr. arr1 ! k = (if k + 1 < length arr then arr ! (k + 1) else arr ! k)"
    by auto
  have "n - 1 = int (length arr - 1)" using assms L by arith
  moreover have "length arr - 1 < length arr1" using L len by simp
  ultimately have w: "wr arr1 (n - 1) (arr ! 0) = Some (arr1[length arr - 1 := arr ! 0])"
    by (simp only: wr_int)
  have "arr1[length arr - 1 := arr ! 0] = rotate1 arr"
  proof (rule nth_equalityI)
    fix k assume "k < length (arr1[length arr - 1 := arr ! 0])"
    then have k: "k < length arr" by (simp add: len)
    show "arr1[length arr - 1 := arr ! 0] ! k = rotate1 arr ! k"
    proof (cases "k = length arr - 1")
      case True
      then have "Suc k = length arr" using L by simp
      with True k show ?thesis by (simp add: nth_rotate1 len)
    next
      case False
      with k have "k + 1 < length arr" by simp
      with nth k False show ?thesis by (simp add: nth_rotate1 len)
    qed
  qed (simp add: len)
  with s w show ?thesis using L by (simp add: rd_def)
qed

lemma rotate_loop_rotate:
  "n = int (length arr) \<Longrightarrow> 0 < n \<Longrightarrow> i \<le> k \<Longrightarrow>
   rotate_loop arr n k i = Some (List.rotate (nat (k - i)) arr)"
proof (induction arr n k i rule: rotate_loop.induct)
  case (1 arr n k i)
  show ?case
  proof (cases "i < k")
    case False
    with "1.prems" show ?thesis by (subst rotate_loop.simps) simp
  next
    case True
    from rotate_step_rotate1 [OF "1.prems"(1,2)]
    obtain arr1 where r: "rd arr 0 = Some (arr ! 0)" and s: "rotate_shift arr n 0 = Some arr1"
      and w: "wr arr1 (n - 1) (arr ! 0) = Some (rotate1 arr)"
      by blast
    have "n = int (length (rotate1 arr))" "i + 1 \<le> k" using "1.prems" True by simp_all
    from "1.IH" [OF True r s w this(1) "1.prems"(2) this(2)]
    have "rotate_loop (rotate1 arr) n k (i + 1) = Some (List.rotate (nat (k - (i + 1))) (rotate1 arr))" .
    moreover have "nat (k - i) = Suc (nat (k - (i + 1)))" using True by simp
    then have "List.rotate (nat (k - i)) arr = List.rotate (nat (k - (i + 1))) (rotate1 arr)"
      by (simp add: rotate1_rotate_swap)
    ultimately show ?thesis
      using True r s w by (subst rotate_loop.simps) simp
  qed
qed

lemma rotate_is_left_rotation:
  assumes "n = int (length arr)" and "0 < n" and "0 \<le> k"
  shows "rotate arr n k = Some (List.rotate (nat (k mod n)) arr)"
proof -
  from assms have "k smod n = k mod n"
    by (simp add: signed_modulo_int_def sgn_if)
  moreover have "0 \<le> k mod n" using assms by simp
  ultimately show ?thesis
    using rotate_loop_rotate [OF assms(1,2), of 0 "k mod n"] assms by (simp add: rotate_def)
qed

text \<open>
  Claim C2 says that \<^verbatim>\<open>rotate(arr, n, k)\<close> rotates to the right by \<open>k mod n\<close>
  positions, so that \<^verbatim>\<open>rotate([1,2,3,4,5], 5, 2)\<close> yields \<open>[4,5,1,2,3]\<close>. The code's
  single step moves every cell one place down and the first cell to the end, a
  rotation to the left: the example yields \<open>[3,4,5,1,2]\<close>.
\<close>

theorem rotate_example_goes_left:
  "rotate [1, 2, 3, 4, 5] 5 2 = Some [3, 4, 5, 1, 2]"
  by (simp add: rotate_def rotate_loop.simps rotate_shift.simps rd_def wr_def signed_modulo_int_def)

section \<open>Properties of firstIndexOf and searchLIN\<close>

lemma searchLIN_loop_found: "0 \<le> index \<Longrightarrow> searchLIN_loop arr n sr i index = Some index"
  by (subst searchLIN_loop.simps) simp

lemma searchLIN_loop_eq_firstIndexOf_loop:
  "0 \<le> i \<Longrightarrow> searchLIN_loop arr n sr i (- 1) = firstIndexOf_loop arr n sr i"
proof (induction arr n sr i rule: firstIndexOf_loop.induct)
  case (1 arr n element i)
  show ?case
  proof (cases "i < n")
    case False
    then show ?thesis
      by (subst searchLIN_loop.simps, subst firstIndexOf_loop.simps) simp
  next
    case True
    show ?thesis
    proof (cases "rd arr i")
      case None
      with True show ?thesis
        by (subst searchLIN_loop.simps, subst firstIndexOf_loop.simps) simp
    next
      case (Some a)
      with True "1.prems" "1.IH" [OF True Some] show ?thesis
        by (subst searchLIN_loop.simps, subst firstIndexOf_loop.simps)
           (simp add: searchLIN_loop_found)
    qed
  qed
qed

lemma first_at_empty: "\<not> i < n \<Longrightarrow> first_at arr e i n (- 1)"
proof -
  assume "\<not> i < n"
  then have "\<forall>j. i \<le> j \<and> j < n \<longrightarrow> arr ! nat j \<noteq> e" by arith
  then show ?thesis unfolding first_at_def by (rule disjI1 [OF conjI [OF refl]])
qed

lemma first_at_here: "i < n \<Longrightarrow> arr ! nat i = e \<Longrightarrow> first_at arr e i n i"
proof -
  assume a: "i < n" "arr ! nat i = e"
  have "\<forall>j. i \<le> j \<and> j < i \<longrightarrow> arr ! nat j \<noteq> e" by arith
  with a show ?thesis unfolding first_at_def by (intro disjI2 conjI) simp_all
qed

lemma first_at_step:
  assumes "first_at arr e (i + 1) n r" and "arr ! nat i \<noteq> e" and "0 \<le> i"
  shows "first_at arr e i n r"
proof -
  have ext: "\<forall>j. i \<le> j \<and> j < m \<longrightarrow> arr ! nat j \<noteq> e"
    if h: "\<forall>j. i + 1 \<le> j \<and> j < m \<longrightarrow> arr ! nat j \<noteq> e" for m
  proof (intro allI impI)
    fix j assume j: "i \<le> j \<and> j < m"
    show "arr ! nat j \<noteq> e"
    proof (cases "j = i")
      case True
      with assms(2) show ?thesis by simp
    next
      case False
      with j have "i + 1 \<le> j \<and> j < m" by simp
      with h show ?thesis by (rule_tac mp [OF spec [OF h]])
    qed
  qed
  from assms(1) consider
    (none) "r = - 1" "\<forall>j. i + 1 \<le> j \<and> j < n \<longrightarrow> arr ! nat j \<noteq> e"
    | (found) "i + 1 \<le> r" "r < n" "arr ! nat r = e" "\<forall>j. i + 1 \<le> j \<and> j < r \<longrightarrow> arr ! nat j \<noteq> e"
    unfolding first_at_def by (elim disjE conjE) 
  then show ?thesis
  proof cases
    case none
    from ext [OF none(2)] none(1) show ?thesis
      unfolding first_at_def by (intro disjI1 conjI)
  next
    case found
    from found(1) have "i \<le> r" by simp
    with ext [OF found(4)] found(2,3) show ?thesis
      unfolding first_at_def by (intro disjI2 conjI)
  qed
qed

lemma firstIndexOf_loop_first:
  "0 \<le> i \<Longrightarrow> n = int (length arr) \<Longrightarrow>
   \<exists>r. firstIndexOf_loop arr n e i = Some r \<and> first_at arr e i n r"
proof (induction arr n e i rule: firstIndexOf_loop.induct)
  case (1 arr n element i)
  show ?case
  proof (cases "i < n")
    case False
    then have "firstIndexOf_loop arr n element i = Some (- 1)"
      by (subst firstIndexOf_loop.simps) simp
    with False show ?thesis by (simp add: first_at_empty)
  next
    case True
    with "1.prems" have r: "rd arr i = Some (arr ! nat i)" by (simp add: rd_Some)
    show ?thesis
    proof (cases "arr ! nat i = element")
      case eq: True
      with True r have "firstIndexOf_loop arr n element i = Some i"
        by (subst firstIndexOf_loop.simps) simp
      with True eq show ?thesis by (simp add: first_at_here)
    next
      case ne: False
      from "1.prems" have "0 \<le> i + 1" by simp
      from "1.IH" [OF True r ne this "1.prems"(2)]
      obtain r' where r': "firstIndexOf_loop arr n element (i + 1) = Some r'"
        and d: "first_at arr element (i + 1) n r'"
        by blast
      have "firstIndexOf_loop arr n element i = Some r'"
        using True r ne r' by (subst firstIndexOf_loop.simps) simp
      with first_at_step [OF d ne "1.prems"(1)] show ?thesis by simp
    qed
  qed
qed

text \<open>
  Claim C9. On a buffer of \<open>n\<close> cells, \<^verbatim>\<open>firstIndexOf(arr, n, e)\<close> returns what
  \<^verbatim>\<open>searchLIN(arr, n, e)\<close> returns: the smallest index whose cell holds \<open>e\<close>, or
  \<open>-1\<close> when no cell does.
\<close>

theorem firstIndexOf_same_as_searchLIN:
  assumes "n = int (length arr)"
  shows "firstIndexOf arr n e = searchLIN arr n e \<and>
    (\<exists>r. searchLIN arr n e = Some r \<and>
       (if e \<in> set arr
        then 0 \<le> r \<and> r < n \<and> arr ! nat r = e \<and> (\<forall>j. 0 \<le> j \<and> j < r \<longrightarrow> arr ! nat j \<noteq> e)
        else r = - 1))"
proof -
  have eq: "searchLIN arr n e = firstIndexOf arr n e"
    by (simp add: searchLIN_def firstIndexOf_def searchLIN_loop_eq_firstIndexOf_loop)
  from firstIndexOf_loop_first [OF _ assms, of 0 e]
  obtain r where r: "firstIndexOf arr n e = Some r" and d: "first_at arr e 0 n r"
    unfolding firstIndexOf_def by auto
  have "if e \<in> set arr
        then 0 \<le> r \<and> r < n \<and> arr ! nat r = e \<and> (\<forall>j. 0 \<le> j \<and> j < r \<longrightarrow> arr ! nat j \<noteq> e)
        else r = - 1"
  proof (cases "e \<in> set arr")
    case True
    then obtain k where k: "k < length arr" "arr ! k = e" by (auto simp: in_set_conv_nth)
    with assms have "0 \<le> int k \<and> int k < n \<and> arr ! nat (int k) = e" by simp
    with d have "0 \<le> r \<and> r < n \<and> arr ! nat r = e \<and> (\<forall>j. 0 \<le> j \<and> j < r \<longrightarrow> arr ! nat j \<noteq> e)"
      unfolding first_at_def by blast
    with True show ?thesis by simp
  next
    case False
    have "r = - 1"
    proof (rule ccontr)
      assume "r \<noteq> - 1"
      with d have "0 \<le> r" "r < n" "arr ! nat r = e" unfolding first_at_def by auto
      with assms have "nat r < length arr" by simp
      with \<open>arr ! nat r = e\<close> have "e \<in> set arr" by (auto simp: in_set_conv_nth)
      with False show False by simp
    qed
    with False show ?thesis by simp
  qed
  with eq r show ?thesis by simp
qed

theorem firstIndexOf_same_as_searchLIN_witness:
  "(3::int) = int (length [7, 3, 3 :: cint]) \<and>
   firstIndexOf [7, 3, 3] 3 3 = searchLIN [7, 3, 3] 3 3 \<and> searchLIN [7, 3, 3] 3 3 = Some 1"
proof -
  have h: "(3::int) = int (length [7, 3, 3 :: cint])" by simp
  have "searchLIN [7, 3, 3] 3 3 = Some 1"
    by (simp add: searchLIN_def searchLIN_loop.simps rd_def)
  with firstIndexOf_same_as_searchLIN [OF h, of 3] show ?thesis by simp
qed

section \<open>The behaviour of searchBIN\<close>

text \<open>
  Claim C1 says that for a sorted array \<open>A\<close> of length \<open>n\<close> and a value \<open>v\<close> that occurs
  in it, \<^verbatim>\<open>searchBIN(A, n, v)\<close> returns an index \<open>i\<close> with \<open>0 \<le> i < n\<close> and
  \<open>A[i] = v\<close>. The code does not: on the sorted array \<open>[1, 2]\<close> it returns \<open>-1\<close> for the
  value 1, whatever \<^verbatim>\<open>mid\<close> held at the start. The first probe is at index 1, and
  \<^verbatim>\<open>end = mid - 1\<close> then drops index 0 from a range whose end is exclusive.
\<close>

theorem searchBIN_misses_present_value:
  "sorted (map sint [1, 2 :: cint]) \<and> (1 :: cint) \<in> set [1, 2] \<and> searchBIN mid0 [1, 2] 2 1 = Some (- 1)"
proof -
  have "searchBIN mid0 [1, 2] 2 1 = Some (- 1)"
  proof (cases "mid0 = - 1")
    case True
    then show ?thesis
      by (simp add: searchBIN_def searchBIN_loop.simps)
  next
    case False
    then have "searchBIN_loop [1, 2] 1 0 2 mid0 (- 1) = searchBIN_loop [1, 2] 1 0 0 1 (- 1)"
      by (subst searchBIN_loop.simps) (simp add: rd_def signed_divide_int_def word_sless_alt)
    also have "\<dots> = Some (- 1)"
      by (subst searchBIN_loop.simps) simp
    finally show ?thesis by (simp add: searchBIN_def)
  qed
  then show ?thesis by simp
qed

section \<open>Properties of reverse\<close>

lemma sdiv_2_nat: "int L sdiv 2 = int (L div 2)"
  by (simp add: signed_divide_int_def sgn_if zdiv_int)

lemma reverse_loop_nth:
  "0 \<le> i \<Longrightarrow> n = int (length arr) \<Longrightarrow>
   \<exists>arr'. reverse_loop arr n i = Some arr' \<and> length arr' = length arr \<and>
     (\<forall>k<length arr. arr' ! k =
        (if nat i \<le> k \<and> k < length arr - nat i then arr ! (length arr - 1 - k) else arr ! k))"
proof (induction arr n i rule: reverse_loop.induct)
  case (1 arr n i)
  define L where "L = length arr"
  define m where "m = nat i"
  from "1.prems" have n: "n = int L" and i: "i = int m" by (simp_all add: L_def m_def)
  show ?case
  proof (cases "i < n sdiv 2")
    case False
    then have stop: "\<not> m < L div 2" by (simp add: n i sdiv_2_nat)
    from False have "reverse_loop arr n i = Some arr"
      by (subst reverse_loop.simps) simp
    moreover have "\<forall>k<length arr. arr ! k =
        (if nat i \<le> k \<and> k < length arr - nat i then arr ! (length arr - 1 - k) else arr ! k)"
    proof (intro allI impI)
      fix k assume "k < length arr"
      show "arr ! k = (if nat i \<le> k \<and> k < length arr - nat i then arr ! (length arr - 1 - k) else arr ! k)"
      proof (cases "nat i \<le> k \<and> k < length arr - nat i")
        case True
        with stop have "length arr - 1 - k = k" unfolding L_def [symmetric] m_def [symmetric] by arith
        with True show ?thesis by simp
      next
        case False
        then show ?thesis by (simp only: if_False)
      qed
    qed
    ultimately show ?thesis by simp
  next
    case True
    then have go: "m < L div 2" by (simp add: n i sdiv_2_nat)
    then have mL: "m < L" "L - m - 1 < L" "m \<noteq> L - m - 1" by arith+
    have r1: "rd arr i = Some (arr ! m)"
      unfolding i using mL(1) unfolding L_def by (rule rd_int)
    have j: "n - i - 1 = int (L - m - 1)" using mL by (simp add: n i)
    have r2: "rd arr (n - i - 1) = Some (arr ! (L - m - 1))"
      unfolding j using mL(2) unfolding L_def by (rule rd_int)
    define arr1 where "arr1 = arr[m := arr ! (L - m - 1)]"
    define arr2 where "arr2 = arr1[L - m - 1 := arr ! m]"
    have w1: "wr arr i (arr ! (L - m - 1)) = Some arr1"
      unfolding i arr1_def using mL(1) unfolding L_def by (rule wr_int)
    have w2: "wr arr1 (n - i - 1) (arr ! m) = Some arr2"
      unfolding j arr2_def by (rule wr_int) (use mL(2) in \<open>simp add: arr1_def L_def\<close>)
    have len2: "length arr2 = L" by (simp add: arr2_def arr1_def L_def)
    have "0 \<le> i + 1" using "1.prems" by simp
    moreover have "n = int (length arr2)" by (simp add: len2 n)
    ultimately obtain arr' where res: "reverse_loop arr2 n (i + 1) = Some arr'"
      and len: "length arr' = length arr2"
      and nth: "\<forall>k<length arr2. arr' ! k =
        (if nat (i + 1) \<le> k \<and> k < length arr2 - nat (i + 1)
         then arr2 ! (length arr2 - 1 - k) else arr2 ! k)"
      using "1.IH" [OF True r1 r2 w1 w2] by blast
    have "reverse_loop arr n i = Some arr'"
      using True r1 r2 w1 w2 res by (subst reverse_loop.simps) simp
    moreover have "length arr' = length arr" using len len2 by (simp add: L_def)
    moreover have "\<forall>k<length arr. arr' ! k =
        (if nat i \<le> k \<and> k < length arr - nat i then arr ! (length arr - 1 - k) else arr ! k)"
    proof (intro allI impI)
      fix k assume k: "k < length arr"
      have s: "nat (i + 1) = m + 1" by (simp add: i)
      from k nth have a: "arr' ! k =
        (if m + 1 \<le> k \<and> k < L - (m + 1) then arr2 ! (L - 1 - k) else arr2 ! k)"
        by (simp add: len2 s L_def)
      have b: "arr2 ! q = (if q = L - m - 1 then arr ! m else if q = m then arr ! (L - m - 1) else arr ! q)"
        if "q < L" for q
        using that mL by (simp add: arr2_def arr1_def nth_list_update L_def)
      have kL: "k < L" using k by (simp add: L_def)
      then have kL': "L - 1 - k < L" by arith
      show "arr' ! k = (if nat i \<le> k \<and> k < length arr - nat i then arr ! (length arr - 1 - k) else arr ! k)"
        unfolding a b [OF kL] b [OF kL'] L_def [symmetric] m_def [symmetric]
        using kL mL go by (auto simp: )
    qed
    ultimately show ?thesis by blast
  qed
qed

lemma reverse_rev:
  assumes "n = int (length A)"
  shows "reverse A n = Some (rev A)"
proof -
  from reverse_loop_nth [OF _ assms, of 0]
  obtain B where B: "reverse A n = Some B" and len: "length B = length A"
    and nth: "\<forall>k<length A. B ! k = A ! (length A - 1 - k)"
    by (auto simp: reverse_def)
  have "B = rev A"
  proof (rule nth_equalityI)
    show "length B = length (rev A)" using len by simp
  next
    fix k assume "k < length B"
    with len nth show "B ! k = rev A ! k" by (simp add: rev_nth)
  qed
  with B show ?thesis by simp
qed

text \<open>
  Claim C7. For an array \<open>A\<close> of length \<open>n\<close>, \<^verbatim>\<open>reverse(A, n)\<close> applied twice gives
  back the contents of \<open>A\<close>: the first call returns, and the second call on its result
  returns \<open>A\<close>.
\<close>

theorem reverse_reverse:
  assumes "n = int (length A)"
  shows "\<exists>B. reverse A n = Some B \<and> reverse B n = Some A"
proof -
  have "reverse (rev A) n = Some (rev (rev A))"
    by (rule reverse_rev) (simp add: assms)
  with reverse_rev [OF assms] show ?thesis by simp
qed

theorem reverse_reverse_witness:
  "(5::int) = int (length [1, 2, 3, 4, 5 :: cint]) \<and>
   reverse [1, 2, 3, 4, 5] 5 = Some [5, 4, 3, 2, 1] \<and> reverse [5, 4, 3, 2, 1] 5 = Some [1, 2, 3, 4, 5]"
proof -
  have h: "(5::int) = int (length [1, 2, 3, 4, 5 :: cint])" by simp
  have e: "reverse [1, 2, 3, 4, 5] 5 = Some [5, 4, 3, 2, 1]"
    by (simp add: reverse_def reverse_loop.simps rd_def wr_def signed_divide_int_def)
  from reverse_reverse [OF h] e show ?thesis by auto
qed

section \<open>The behaviour of MAX_count\<close>

text \<open>
  Claim C5 says that \<^verbatim>\<open>MAX_count\<close> returns the number of occurrences of the final
  maximum, by the scan of \<open>getMaxOccurrence_spec\<close>. The code never assigns the running maximum and starts
  its count at 0: on \<open>[1, 3, 3]\<close> every 3 is "a new maximum" against the first cell,
  and the result is 1 where the scan of the claim gives 2.
\<close>

theorem MAX_count_keeps_first_as_maximum:
  "MAX_count [1, 3, 3] 3 = Some 1 \<and> getMaxOccurrence_spec (map sint [1, 3, 3 :: cint]) = Some 2"
  by (simp add: MAX_count_def MAX_count_loop.simps rd_def getMaxOccurrence_spec_def word_sless_alt)

lemma MAX_count_singleton: "MAX_count [5] 1 = Some 0"
  by (simp add: MAX_count_def MAX_count_loop.simps rd_def)

section \<open>Properties of the dual-pivot quicksort\<close>

subsection \<open>Swapping two cells\<close>

lemma swapNumbers_swapped:
  "i < length arr \<Longrightarrow> j < length arr \<Longrightarrow> swapNumbers arr (int i) (int j) = Some (swapped arr i j)"
  by (simp add: swapNumbers_def rd_int wr_int swapped_def)

lemma length_swapped [simp]: "length (swapped arr i j) = length arr"
  by (simp add: swapped_def)

lemma mset_swapped: "i < length arr \<Longrightarrow> j < length arr \<Longrightarrow> mset (swapped arr i j) = mset arr"
  unfolding swapped_def by (rule mset_swap)

lemma nth_swapped:
  "i < length arr \<Longrightarrow> j < length arr \<Longrightarrow> k < length arr \<Longrightarrow>
   swapped arr i j ! k = (if k = j then arr ! i else if k = i then arr ! j else arr ! k)"
  by (simp add: swapped_def nth_list_update)

subsection \<open>The partition loop\<close>

lemma frame_refl: "frame arr arr lo hi"
  by (simp add: frame_def)

lemma frame_nth:
  "frame arr arr' lo hi \<Longrightarrow> k < length arr \<Longrightarrow> int k < lo \<or> hi < int k \<Longrightarrow> arr' ! k = arr ! k"
  unfolding frame_def by blast

lemma frame_length: "frame arr arr' lo hi \<Longrightarrow> length arr' = length arr"
  unfolding frame_def by blast

lemma frame_mset: "frame arr arr' lo hi \<Longrightarrow> mset arr' = mset arr"
  unfolding frame_def by blast

lemma frameI:
  "length arr' = length arr \<Longrightarrow> mset arr' = mset arr \<Longrightarrow>
   (\<And>k. k < length arr \<Longrightarrow> int k < lo \<or> hi < int k \<Longrightarrow> arr' ! k = arr ! k) \<Longrightarrow>
   frame arr arr' lo hi"
  unfolding frame_def by blast

lemma frame_trans:
  assumes "frame a b lo hi" and "frame b c lo' hi'" and "lo \<le> lo'" and "hi' \<le> hi"
  shows "frame a c lo hi"
proof -
  from assms(1,2) have len: "length b = length a" "length c = length b"
    and ms: "mset b = mset a" "mset c = mset b"
    by (simp_all add: frame_def)
  have "c ! k = a ! k" if k: "k < length a" and out: "int k < lo \<or> hi < int k" for k
  proof -
    from out assms(3,4) have out': "int k < lo' \<or> hi' < int k" by arith
    from k len have "k < length b" by simp
    from frame_nth [OF assms(2) this out'] have "c ! k = b ! k" .
    moreover from frame_nth [OF assms(1) k out] have "b ! k = a ! k" .
    ultimately show ?thesis by simp
  qed
  with len ms show ?thesis by (intro frameI) simp_all
qed

lemma frame_swapped:
  assumes "i < length arr" and "j < length arr"
    and "lo \<le> int i" and "int i \<le> hi" and "lo \<le> int j" and "int j \<le> hi"
  shows "frame arr (swapped arr i j) lo hi"
proof -
  have "swapped arr i j ! k = arr ! k" if "k < length arr" and "int k < lo \<or> hi < int k" for k
  proof -
    from that(2) assms(3-6) have "k \<noteq> i" "k \<noteq> j" by auto
    with that(1) assms(1,2) show ?thesis by (simp add: nth_swapped)
  qed
  with assms(1,2) show ?thesis by (intro frameI) (simp_all add: mset_swapped)
qed

lemma part_invI:
  "l < h \<Longrightarrow> h < length arr \<Longrightarrow> l + 1 \<le> lp \<Longrightarrow> lp \<le> it \<Longrightarrow> it \<le> rp + 1 \<Longrightarrow> rp + 1 \<le> h \<Longrightarrow>
   (\<And>k. l < k \<Longrightarrow> k < lp \<Longrightarrow> arr ! k <s arr ! l) \<Longrightarrow>
   (\<And>k. lp \<le> k \<Longrightarrow> k < it \<Longrightarrow> \<not> arr ! k <s arr ! l \<and> \<not> arr ! h <s arr ! k) \<Longrightarrow>
   (\<And>k. rp < k \<Longrightarrow> k < h \<Longrightarrow> arr ! h <s arr ! k) \<Longrightarrow>
   part_inv arr l h lp rp it"
  unfolding part_inv_def by blast

lemma part_inv_bounds:
  "part_inv arr l h lp rp it \<Longrightarrow>
   l < h \<and> h < length arr \<and> l + 1 \<le> lp \<and> lp \<le> it \<and> it \<le> rp + 1 \<and> rp + 1 \<le> h"
  unfolding part_inv_def by blast

lemma part_inv_below:
  "part_inv arr l h lp rp it \<Longrightarrow> l < k \<Longrightarrow> k < lp \<Longrightarrow> arr ! k <s arr ! l"
  unfolding part_inv_def by blast

lemma part_inv_between:
  "part_inv arr l h lp rp it \<Longrightarrow> lp \<le> k \<Longrightarrow> k < it \<Longrightarrow>
   \<not> arr ! k <s arr ! l \<and> \<not> arr ! h <s arr ! k"
  unfolding part_inv_def by blast

lemma part_inv_above:
  "part_inv arr l h lp rp it \<Longrightarrow> rp < k \<Longrightarrow> k < h \<Longrightarrow> arr ! h <s arr ! k"
  unfolding part_inv_def by blast

lemma part_inv_left:
  assumes inv: "part_inv arr l h lp rp it" and go: "it \<le> rp" and x: "arr ! it <s arr ! l"
  shows "part_inv (swapped arr it lp) l h (lp + 1) rp (it + 1)"
proof -
  from part_inv_bounds [OF inv] go
  have b: "l < h" "h < length arr" "l + 1 \<le> lp" "lp \<le> it" "it \<le> rp" "rp + 1 \<le> h"
    by simp_all
  then have lens: "it < length arr" "lp < length arr" by simp_all
  have nth: "swapped arr it lp ! k =
      (if k = lp then arr ! it else if k = it then arr ! lp else arr ! k)" if "k < length arr" for k
    using nth_swapped [OF lens that] .
  have nl: "swapped arr it lp ! l = arr ! l" using b by (simp add: nth)
  have nh: "swapped arr it lp ! h = arr ! h" using b by (simp add: nth)
  show ?thesis
  proof (rule part_invI)
    fix k assume k: "l < k" "k < lp + 1"
    show "swapped arr it lp ! k <s swapped arr it lp ! l"
    proof (cases "k = lp")
      case True
      with x lens show ?thesis by (simp add: nl nth)
    next
      case False
      with k have "k < lp" by simp
      from part_inv_below [OF inv k(1) this] \<open>k < lp\<close> b show ?thesis
        by (simp add: nl nth)
    qed
  next
    fix k assume k: "lp + 1 \<le> k" "k < it + 1"
    show "\<not> swapped arr it lp ! k <s swapped arr it lp ! l \<and>
          \<not> swapped arr it lp ! h <s swapped arr it lp ! k"
    proof (cases "k = it")
      case True
      with k have "lp < it" by simp
      with part_inv_between [OF inv, of lp] True b show ?thesis
        by (simp add: nl nh nth)
    next
      case False
      with k have "lp \<le> k" "k < it" by simp_all
      from part_inv_between [OF inv this] k False b show ?thesis
        by (simp add: nl nh nth)
    qed
  next
    fix k assume k: "rp < k" "k < h"
    from part_inv_above [OF inv k] k b show "swapped arr it lp ! h <s swapped arr it lp ! k"
      by (simp add: nh nth)
  qed (use b in simp_all)
qed

lemma part_inv_right:
  assumes inv: "part_inv arr l h lp rp it" and go: "it \<le> rp" and x: "arr ! h <s arr ! it"
  shows "part_inv (swapped arr it rp) l h lp (rp - 1) it"
proof -
  from part_inv_bounds [OF inv] go
  have b: "l < h" "h < length arr" "l + 1 \<le> lp" "lp \<le> it" "it \<le> rp" "rp + 1 \<le> h"
    by simp_all
  then have lens: "it < length arr" "rp < length arr" by simp_all
  have nth: "swapped arr it rp ! k =
      (if k = rp then arr ! it else if k = it then arr ! rp else arr ! k)" if "k < length arr" for k
    using nth_swapped [OF lens that] .
  have nl: "swapped arr it rp ! l = arr ! l" using b by (simp add: nth)
  have nh: "swapped arr it rp ! h = arr ! h" using b by (simp add: nth)
  show ?thesis
  proof (rule part_invI)
    fix k assume k: "l < k" "k < lp"
    from part_inv_below [OF inv k] k b show "swapped arr it rp ! k <s swapped arr it rp ! l"
      by (simp add: nl nth)
  next
    fix k assume k: "lp \<le> k" "k < it"
    from part_inv_between [OF inv k] k b
    show "\<not> swapped arr it rp ! k <s swapped arr it rp ! l \<and>
          \<not> swapped arr it rp ! h <s swapped arr it rp ! k"
      by (simp add: nl nh nth)
  next
    fix k assume k: "rp - 1 < k" "k < h"
    show "swapped arr it rp ! h <s swapped arr it rp ! k"
    proof (cases "k = rp")
      case True
      with x lens show ?thesis by (simp add: nh nth)
    next
      case False
      with k have "rp < k" by simp
      from part_inv_above [OF inv this k(2)] k \<open>rp < k\<close> b show ?thesis
        by (simp add: nh nth)
    qed
  qed (use b in simp_all)
qed

lemma part_inv_keep:
  assumes inv: "part_inv arr l h lp rp it" and go: "it \<le> rp"
    and x: "\<not> arr ! it <s arr ! l" "\<not> arr ! h <s arr ! it"
  shows "part_inv arr l h lp rp (it + 1)"
proof -
  from part_inv_bounds [OF inv] go
  have b: "l < h" "h < length arr" "l + 1 \<le> lp" "lp \<le> it" "it \<le> rp" "rp + 1 \<le> h"
    by simp_all
  show ?thesis
  proof (rule part_invI)
    fix k assume k: "l < k" "k < lp"
    from part_inv_below [OF inv k] show "arr ! k <s arr ! l" .
  next
    fix k assume k: "lp \<le> k" "k < it + 1"
    show "\<not> arr ! k <s arr ! l \<and> \<not> arr ! h <s arr ! k"
    proof (cases "k = it")
      case True
      with x show ?thesis by simp
    next
      case False
      with k have "k < it" by simp
      from part_inv_between [OF inv k(1) this] show ?thesis .
    qed
  next
    fix k assume k: "rp < k" "k < h"
    from part_inv_above [OF inv k] show "arr ! h <s arr ! k" .
  qed (use b in simp_all)
qed

lemma pivotPartition_loop_inv:
  "part_inv arr l h lp rp it \<Longrightarrow> low = int l \<Longrightarrow> high = int h \<Longrightarrow>
   leftPivot = int lp \<Longrightarrow> rightPivot = int rp \<Longrightarrow> iterator = int it \<Longrightarrow>
   \<exists>arr' lp' rp'.
     pivotPartition_loop arr low high leftPivot rightPivot iterator = Some (arr', int lp', int rp') \<and>
     part_inv arr' l h lp' rp' (rp' + 1) \<and> frame arr arr' (int l + 1) (int h - 1)"
proof (induction arr low high leftPivot rightPivot iterator arbitrary: lp rp it
    rule: pivotPartition_loop.induct)
  case (1 arr low high leftPivot rightPivot iterator)
  note inv = "1.prems"(1) and eqs = "1.prems"(2-6)
  from part_inv_bounds [OF inv]
  have b: "l < h" "h < length arr" "l + 1 \<le> lp" "lp \<le> it" "it \<le> rp + 1" "rp + 1 \<le> h"
    by simp_all
  show ?case
  proof (cases "iterator \<le> rightPivot")
    case False
    with eqs have "it = rp + 1" using b by simp
    with inv have "part_inv arr l h lp rp (rp + 1)" by simp
    moreover from False
    have "pivotPartition_loop arr low high leftPivot rightPivot iterator = Some (arr, int lp, int rp)"
      by (subst pivotPartition_loop.simps) (simp add: eqs)
    ultimately show ?thesis using frame_refl by blast
  next
    case True
    with eqs have go: "it \<le> rp" by simp
    with b have lens: "it < length arr" "l < length arr" "lp < length arr" "rp < length arr"
      by simp_all
    have rx: "rd arr iterator = Some (arr ! it)"
      unfolding eqs using lens(1) by (rule rd_int)
    have rp: "rd arr low = Some (arr ! l)"
      unfolding eqs using lens(2) by (rule rd_int)
    have rq: "rd arr high = Some (arr ! h)"
      unfolding eqs using b(2) by (rule rd_int)
    show ?thesis
    proof (cases "arr ! it <s arr ! l")
      case left: True
      have sw: "swapNumbers arr iterator leftPivot = Some (swapped arr it lp)"
        unfolding eqs using lens(1,3) by (rule swapNumbers_swapped)
      have e1: "leftPivot + 1 = int (lp + 1)" and e2: "iterator + 1 = int (it + 1)"
        using eqs by simp_all
      from "1.IH"(1) [OF True rx rp left sw part_inv_left [OF inv go left] eqs(1,2) e1 eqs(4) e2]
      obtain arr' lp' rp' where
        res: "pivotPartition_loop (swapped arr it lp) low high (leftPivot + 1) rightPivot
                (iterator + 1) = Some (arr', int lp', int rp')"
        and inv': "part_inv arr' l h lp' rp' (rp' + 1)"
        and fr: "frame (swapped arr it lp) arr' (int l + 1) (int h - 1)"
        by blast
      have "pivotPartition_loop arr low high leftPivot rightPivot iterator
          = Some (arr', int lp', int rp')"
        using True rx rp left sw res by (subst pivotPartition_loop.simps) simp
      moreover have "frame arr (swapped arr it lp) (int l + 1) (int h - 1)"
        by (rule frame_swapped) (use lens b go in simp_all)
      from frame_trans [OF this fr] have "frame arr arr' (int l + 1) (int h - 1)" by simp
      ultimately show ?thesis using inv' by blast
    next
      case nleft: False
      show ?thesis
      proof (cases "arr ! h <s arr ! it")
        case right: True
        have sw: "swapNumbers arr iterator rightPivot = Some (swapped arr it rp)"
          unfolding eqs using lens(1,4) by (rule swapNumbers_swapped)
        have e1: "rightPivot - 1 = int (rp - 1)"
          using eqs go b by simp
        from "1.IH"(2) [OF True rx rp nleft rq right sw part_inv_right [OF inv go right]
            eqs(1,2,3) e1 eqs(5)]
        obtain arr' lp' rp' where
          res: "pivotPartition_loop (swapped arr it rp) low high leftPivot (rightPivot - 1)
                  iterator = Some (arr', int lp', int rp')"
          and inv': "part_inv arr' l h lp' rp' (rp' + 1)"
          and fr: "frame (swapped arr it rp) arr' (int l + 1) (int h - 1)"
          by blast
        have "pivotPartition_loop arr low high leftPivot rightPivot iterator
            = Some (arr', int lp', int rp')"
          using True rx rp nleft rq right sw res by (subst pivotPartition_loop.simps) simp
        moreover have "frame arr (swapped arr it rp) (int l + 1) (int h - 1)"
          by (rule frame_swapped) (use lens b go in simp_all)
        from frame_trans [OF this fr] have "frame arr arr' (int l + 1) (int h - 1)" by simp
        ultimately show ?thesis using inv' by blast
      next
        case nright: False
        have e2: "iterator + 1 = int (it + 1)" using eqs by simp
        from "1.IH"(3) [OF True rx rp nleft rq nright part_inv_keep [OF inv go nleft nright]
            eqs(1,2,3,4) e2]
        obtain arr' lp' rp' where
          res: "pivotPartition_loop arr low high leftPivot rightPivot (iterator + 1)
                  = Some (arr', int lp', int rp')"
          and inv': "part_inv arr' l h lp' rp' (rp' + 1)"
          and fr: "frame arr arr' (int l + 1) (int h - 1)"
          by blast
        have "pivotPartition_loop arr low high leftPivot rightPivot iterator
            = Some (arr', int lp', int rp')"
          using True rx rp nleft rq nright res by (subst pivotPartition_loop.simps) simp
        with inv' fr show ?thesis by blast
      qed
    qed
  qed
qed

subsection \<open>The partition\<close>

lemma partitionedI:
  "l \<le> lf \<Longrightarrow> lf < rt \<Longrightarrow> rt \<le> h \<Longrightarrow> h < length arr \<Longrightarrow>
   (\<And>k. l \<le> k \<Longrightarrow> k < lf \<Longrightarrow> arr ! k <s arr ! lf) \<Longrightarrow>
   (\<And>k. lf < k \<Longrightarrow> k < rt \<Longrightarrow> \<not> arr ! k <s arr ! lf \<and> \<not> arr ! rt <s arr ! k) \<Longrightarrow>
   (\<And>k. rt < k \<Longrightarrow> k \<le> h \<Longrightarrow> arr ! rt <s arr ! k) \<Longrightarrow>
   \<not> arr ! rt <s arr ! lf \<Longrightarrow>
   partitioned arr l h lf rt"
  unfolding partitioned_def by blast

lemma pivotPartition_partitioned:
  assumes low: "low = int l" and high: "high = int h" and lh: "l < h" and h: "h < length arr"
  shows "\<exists>arr' lf rt. pivotPartition arr low high = Some (arr', \<lparr>left = int lf, right = int rt\<rparr>) \<and>
     partitioned arr' l h lf rt \<and> frame arr arr' low high"
proof -
  from lh h have l: "l < length arr" by simp
  define arr1 where "arr1 = (if arr ! h <s arr ! l then swapped arr l h else arr)"
  have len1: "length arr1 = length arr" by (simp add: arr1_def)
  have s1: "(if arr ! h <s arr ! l then swapNumbers arr low high else Some arr) = Some arr1"
    unfolding low high arr1_def by (simp add: swapNumbers_swapped [OF l h])
  have o1: "\<not> arr1 ! h <s arr1 ! l"
    using lh by (auto simp: arr1_def nth_swapped [OF l h] l h word_sless_alt)
  have f1: "frame arr arr1 low high"
    unfolding arr1_def using frame_swapped [OF l h, of low high] frame_refl lh
    by (simp add: low high)
  have "part_inv arr1 l h (l + 1) (h - 1) (l + 1)"
    by (rule part_invI) (use lh h len1 in simp_all)
  from pivotPartition_loop_inv [OF this low high, of "low + 1" "high - 1" "low + 1"] lh
  obtain arr2 lp rp where
    loop: "pivotPartition_loop arr1 low high (low + 1) (high - 1) (low + 1)
             = Some (arr2, int lp, int rp)"
    and inv: "part_inv arr2 l h lp rp (rp + 1)"
    and f2: "frame arr1 arr2 (int l + 1) (int h - 1)"
    by (auto simp: low high)
  from part_inv_bounds [OF inv]
  have b: "l + 1 \<le> lp" "lp \<le> rp + 1" "rp + 1 \<le> h" and len2: "h < length arr2"
    by simp_all
  have l2: "arr2 ! l = arr1 ! l" and h2: "arr2 ! h = arr1 ! h"
    using frame_nth [OF f2, of l] frame_nth [OF f2, of h] l h len1 by simp_all
  define lf where "lf = lp - 1"
  define rt where "rt = rp + 1"
  from b lh have o: "l \<le> lf" "lf < rt" "rt \<le> h" "lf < lp" "lp = lf + 1"
    by (simp_all add: lf_def rt_def)
  define arr3 where "arr3 = swapped arr2 l lf"
  define arr4 where "arr4 = swapped arr3 h rt"
  have in2: "l < length arr2" "lf < length arr2" "rt < length arr2"
    using o lh len2 by simp_all
  have sw3: "swapNumbers arr2 low (int lf) = Some arr3"
    unfolding low arr3_def by (simp add: swapNumbers_swapped in2)
  have sw4: "swapNumbers arr3 high (int rt) = Some arr4"
    unfolding high arr4_def by (simp add: swapNumbers_swapped in2 len2 arr3_def)
  have res: "pivotPartition arr low high = Some (arr4, \<lparr>left = int lf, right = int rt\<rparr>)"
  proof -
    have "int lp - 1 = int lf" "int rp + 1 = int rt" using b by (simp_all add: lf_def rt_def)
    then show ?thesis
      unfolding pivotPartition_def
      by (simp add: rd_int [OF l, folded low] rd_int [OF h, folded high] s1 loop sw3 sw4)
  qed
  have n3: "arr3 ! k = (if k = lf then arr2 ! l else if k = l then arr2 ! lf else arr2 ! k)"
    if "k < length arr2" for k
    unfolding arr3_def using nth_swapped [OF in2(1,2) that] .
  have n4: "arr4 ! k = (if k = rt then arr3 ! h else if k = h then arr3 ! rt else arr3 ! k)"
    if "k < length arr2" for k
    unfolding arr4_def using nth_swapped [of h arr3 rt k] that len2 in2 by (simp add: arr3_def)
  have plf: "arr4 ! lf = arr2 ! l"
    using o lh in2 by (simp add: n4 n3)
  have prt: "arr4 ! rt = arr2 ! h"
    using o lh in2 len2 by (simp add: n4 n3)
  have "partitioned arr4 l h lf rt"
  proof (rule partitionedI)
    fix k assume k: "l \<le> k" "k < lf"
    then have kl: "k < length arr2" using in2 by simp
    show "arr4 ! k <s arr4 ! lf"
    proof (cases "k = l")
      case True
      with k have "l < lf" by simp
      from part_inv_below [OF inv this o(4)] True k o kl show ?thesis
        by (simp add: plf n4 n3)
    next
      case False
      with k have "l < k" "k < lp" using o by simp_all
      from part_inv_below [OF inv this] False k o kl show ?thesis
        by (simp add: plf n4 n3)
    qed
  next
    fix k assume k: "lf < k" "k < rt"
    then have kl: "k < length arr2" using in2 by simp
    from k have "lp \<le> k" "k < rp + 1" by (simp_all add: o rt_def)
    from part_inv_between [OF inv this] k o kl
    show "\<not> arr4 ! k <s arr4 ! lf \<and> \<not> arr4 ! rt <s arr4 ! k"
      by (simp add: plf prt n4 n3)
  next
    fix k assume k: "rt < k" "k \<le> h"
    then have kl: "k < length arr2" using len2 by simp
    show "arr4 ! rt <s arr4 ! k"
    proof (cases "k = h")
      case True
      with k have "rp < rt" "rt < h" by (simp_all add: rt_def)
      from part_inv_above [OF inv this] True k o in2 len2 show ?thesis
        by (simp add: prt n4 n3)
    next
      case False
      with k have "rp < k" "k < h" by (simp_all add: rt_def)
      from part_inv_above [OF inv this] False k o kl show ?thesis
        by (simp add: prt n4 n3)
    qed
  next
    from o1 show "\<not> arr4 ! rt <s arr4 ! lf" by (simp add: plf prt l2 h2)
  next
    show "h < length arr4" using len2 by (simp add: arr4_def arr3_def)
  qed (use o in simp_all)
  moreover have "frame arr arr4 low high"
  proof -
    have "frame arr2 arr3 low high"
      unfolding arr3_def by (rule frame_swapped) (use in2 o lh in \<open>simp_all add: low high\<close>)
    moreover have "frame arr3 arr4 low high"
      unfolding arr4_def
      by (rule frame_swapped) (use in2 len2 o lh in \<open>simp_all add: low high arr3_def\<close>)
    ultimately have "frame arr2 arr4 low high"
      by (rule frame_trans) simp_all
    with frame_trans [OF f1 f2] show ?thesis
      by (simp add: low high frame_trans [where lo' = "int l" and hi' = "int h"])
  qed
  ultimately show ?thesis using res by blast
qed

subsection \<open>Ranges of a buffer\<close>

lemma all_rangeI:
  "(\<And>k. lo \<le> int k \<Longrightarrow> int k \<le> hi \<Longrightarrow> k < length arr \<Longrightarrow> P (arr ! k)) \<Longrightarrow> all_range arr lo hi P"
  unfolding all_range_def by blast

lemma all_rangeD:
  "all_range arr lo hi P \<Longrightarrow> lo \<le> int k \<Longrightarrow> int k \<le> hi \<Longrightarrow> k < length arr \<Longrightarrow> P (arr ! k)"
  unfolding all_range_def by blast

lemma sorted_rangeI:
  "(\<And>i j. lo \<le> int i \<Longrightarrow> i \<le> j \<Longrightarrow> int j \<le> hi \<Longrightarrow> j < length arr \<Longrightarrow>
      sint (arr ! i) \<le> sint (arr ! j)) \<Longrightarrow> sorted_range arr lo hi"
  unfolding sorted_range_def by blast

lemma sorted_rangeD:
  "sorted_range arr lo hi \<Longrightarrow> lo \<le> int i \<Longrightarrow> i \<le> j \<Longrightarrow> int j \<le> hi \<Longrightarrow> j < length arr \<Longrightarrow>
   sint (arr ! i) \<le> sint (arr ! j)"
  unfolding sorted_range_def by blast

lemma frame_range_member:
  assumes fr: "frame a b lo hi" and lo: "0 \<le> lo"
    and k: "k < length a" "lo \<le> int k" "int k \<le> hi"
  shows "\<exists>k'. k' < length a \<and> lo \<le> int k' \<and> int k' \<le> hi \<and> b ! k = a ! k'"
proof -
  define m where "m = nat lo"
  define e where "e = nat hi + 1"
  from lo k have mk: "m \<le> k" "k < e" by (simp_all add: m_def e_def)
  have len: "length b = length a" using fr by (rule frame_length)
  have pre: "take m b = take m a"
  proof (rule nth_equalityI)
    fix i assume "i < length (take m b)"
    then have i: "i < m" "i < length a" by (simp_all add: len)
    then have "int i < lo" by (simp add: m_def)
    with frame_nth [OF fr i(2)] i show "take m b ! i = take m a ! i" by simp
  qed (simp add: len)
  have post: "drop e b = drop e a"
  proof (rule nth_equalityI)
    fix i assume "i < length (drop e b)"
    then have i: "e + i < length a" by (simp add: len)
    have "hi < int (e + i)" by (simp add: e_def)
    with frame_nth [OF fr i] i show "drop e b ! i = drop e a ! i" by (simp add: len)
  qed (simp add: len)
  have split: "x = take m x @ take (e - m) (drop m x) @ drop e x" for x :: "cint list"
  proof -
    have "drop (e - m) (drop m x) = drop e x" using mk by simp
    then have "drop m x = take (e - m) (drop m x) @ drop e x"
      by (metis append_take_drop_id)
    then show ?thesis by (metis append_take_drop_id)
  qed
  have "mset b = mset a" using fr by (rule frame_mset)
  then have "mset (take m b @ take (e - m) (drop m b) @ drop e b)
      = mset (take m a @ take (e - m) (drop m a) @ drop e a)"
    using split [of a] split [of b] by simp
  then have "mset (take (e - m) (drop m b)) = mset (take (e - m) (drop m a))"
    by (simp add: pre post)
  then have sets: "set (take (e - m) (drop m b)) = set (take (e - m) (drop m a))"
    by (rule mset_eq_setD)
  have km: "k - m < length a - m" "k - m < e - m" "m + (k - m) = k" using mk k(1) by arith+
  have "k - m < length (take (e - m) (drop m b))" using km by (simp add: len)
  moreover have "take (e - m) (drop m b) ! (k - m) = b ! k" using km mk k(1) by (simp add: len)
  ultimately have "b ! k \<in> set (take (e - m) (drop m b))" by (metis nth_mem)
  with sets have "b ! k \<in> set (take (e - m) (drop m a))" by simp
  then obtain j where j: "j < length (take (e - m) (drop m a))"
    and v: "take (e - m) (drop m a) ! j = b ! k"
    by (auto simp: in_set_conv_nth)
  from j have "j < length a - m \<and> j < e - m" by simp
  then have jb: "j < e - m" "m + j < length a" by arith+
  with v have "a ! (m + j) = b ! k" by simp
  moreover from k lo have "0 \<le> hi" by simp
  with jb lo have "lo \<le> int (m + j)" "int (m + j) \<le> hi" unfolding m_def e_def by arith+
  ultimately show ?thesis using jb(2) by metis
qed

lemma frame_all_range:
  assumes "frame a b lo hi" and "0 \<le> lo" and "all_range a lo hi P"
  shows "all_range b lo hi P"
proof (rule all_rangeI)
  fix k assume k: "lo \<le> int k" "int k \<le> hi" "k < length b"
  then have "k < length a" using frame_length [OF assms(1)] by simp
  from frame_range_member [OF assms(1,2) this k(1,2)]
  obtain k' where "k' < length a" "lo \<le> int k'" "int k' \<le> hi" "b ! k = a ! k'" by blast
  with all_rangeD [OF assms(3), of k'] show "P (b ! k)" by simp
qed

lemma frame_all_outside:
  assumes "frame a b lo hi" and "all_range a lo' hi' P" and "hi' < lo \<or> hi < lo'"
  shows "all_range b lo' hi' P"
proof (rule all_rangeI)
  fix k assume k: "lo' \<le> int k" "int k \<le> hi'" "k < length b"
  then have ka: "k < length a" using frame_length [OF assms(1)] by simp
  from k assms(3) have "int k < lo \<or> hi < int k" by arith
  from frame_nth [OF assms(1) ka this] all_rangeD [OF assms(2) k(1,2) ka]
  show "P (b ! k)" by simp
qed

lemma frame_sorted_outside:
  assumes "frame a b lo hi" and "sorted_range a lo' hi'" and "hi' < lo \<or> hi < lo'"
  shows "sorted_range b lo' hi'"
proof (rule sorted_rangeI)
  fix i j assume ij: "lo' \<le> int i" "i \<le> j" "int j \<le> hi'" "j < length b"
  then have ja: "j < length a" and ia: "i < length a"
    using frame_length [OF assms(1)] by simp_all
  from ij assms(3) have "int i < lo \<or> hi < int i" "int j < lo \<or> hi < int j" by arith+
  from frame_nth [OF assms(1) ia this(1)] frame_nth [OF assms(1) ja this(2)]
    sorted_rangeD [OF assms(2) ij(1,2,3) ja]
  show "sint (b ! i) \<le> sint (b ! j)" by simp
qed

subsection \<open>The sort\<close>

lemma sorted_range_join:
  assumes o: "l \<le> lf" "lf < rt" "rt \<le> h" "h < length arr"
    and A: "all_range arr (int l) (int lf - 1) (\<lambda>x. x <s arr ! lf)"
    and B: "all_range arr (int lf + 1) (int rt - 1) (\<lambda>x. \<not> x <s arr ! lf \<and> \<not> arr ! rt <s x)"
    and C: "all_range arr (int rt + 1) (int h) (\<lambda>x. arr ! rt <s x)"
    and D: "\<not> arr ! rt <s arr ! lf"
    and sA: "sorted_range arr (int l) (int lf - 1)"
    and sB: "sorted_range arr (int lf + 1) (int rt - 1)"
    and sC: "sorted_range arr (int rt + 1) (int h)"
  shows "sorted_range arr (int l) (int h)"
proof (rule sorted_rangeI)
  fix i j assume ij: "int l \<le> int i" "i \<le> j" "int j \<le> int h" "j < length arr"
  define v where "v k = sint (arr ! k)" for k
  have a: "v k < v lf" if "l \<le> k" "k < lf" for k
    using all_rangeD [OF A, of k] that o by (simp add: v_def word_sless_alt)
  have b: "v lf \<le> v k \<and> v k \<le> v rt" if "lf < k" "k < rt" for k
    using all_rangeD [OF B, of k] that o by (simp add: v_def word_sless_alt)
  have c: "v rt < v k" if "rt < k" "k \<le> h" for k
    using all_rangeD [OF C, of k] that o by (simp add: v_def word_sless_alt)
  have d: "v lf \<le> v rt"
    using D by (simp add: v_def word_sless_alt)
  have ge_rt: "v rt \<le> v k" if "rt \<le> k" "k \<le> h" for k
  proof (cases "k = rt")
    case True
    then show ?thesis by simp
  next
    case False
    with that have "rt < k" by simp
    from c [OF this that(2)] show ?thesis by simp
  qed
  have ge_lf: "v lf \<le> v k" if "lf \<le> k" "k \<le> h" for k
  proof -
    from that have "k = lf \<or> (lf < k \<and> k < rt) \<or> rt \<le> k" by arith
    then consider "k = lf" | "lf < k" "k < rt" | "rt \<le> k" by blast
    then show ?thesis
    proof cases
      case 1
      then show ?thesis by simp
    next
      case 2
      with b show ?thesis by simp
    next
      case 3
      from ge_rt [OF 3 that(2)] d show ?thesis by simp
    qed
  qed
  from ij have jh: "j \<le> h" and li: "l \<le> i" by simp_all
  have "j < lf \<or> (i < lf \<and> lf \<le> j) \<or> i = lf \<or> (lf < i \<and> j < rt)
      \<or> (lf < i \<and> i < rt \<and> rt \<le> j) \<or> i = rt \<or> rt < i"
    by arith
  then consider "j < lf" | "i < lf" "lf \<le> j" | "i = lf" | "lf < i" "j < rt"
    | "lf < i" "i < rt" "rt \<le> j" | "i = rt" | "rt < i"
    by blast
  then have "v i \<le> v j"
  proof cases
    case 1
    with sorted_rangeD [OF sA, of i j] ij show ?thesis by (simp add: v_def)
  next
    case 2
    from a [OF li 2(1)] ge_lf [OF 2(2) jh] show ?thesis by simp
  next
    case 3
    with ge_lf [of j] ij(2) jh show ?thesis by simp
  next
    case 4
    with sorted_rangeD [OF sB, of i j] ij show ?thesis by (simp add: v_def)
  next
    case 5
    from b [OF 5(1,2)] ge_rt [OF 5(3) jh] show ?thesis by simp
  next
    case 6
    with ge_rt [of j] ij(2) jh show ?thesis by simp
  next
    case 7
    with sorted_rangeD [OF sC, of i j] ij show ?thesis by (simp add: v_def)
  qed
  then show "sint (arr ! i) \<le> sint (arr ! j)" by (simp add: v_def)
qed

lemma dualPivotQuickSort_sorts:
  "0 \<le> low \<Longrightarrow> high < int (length arr) \<Longrightarrow>
   \<exists>arr'. dualPivotQuickSort arr low high = Some arr' \<and> frame arr arr' low high \<and>
     sorted_range arr' low high"
proof (induction arr low high rule: dualPivotQuickSort.induct)
  case (1 arr low high)
  show ?case
  proof (cases "high \<le> low")
    case True
    then have "dualPivotQuickSort arr low high = Some arr"
      by (subst dualPivotQuickSort.simps) simp
    moreover have "sorted_range arr low high"
    proof (rule sorted_rangeI)
      fix i j assume "low \<le> int i" "i \<le> j" "int j \<le> high"
      with True have "i = j" by simp
      then show "sint (arr ! i) \<le> sint (arr ! j)" by simp
    qed
    ultimately show ?thesis using frame_refl by blast
  next
    case False
    define l where "l = nat low"
    define h where "h = nat high"
    from False "1.prems" have lh: "low = int l" "high = int h" "l < h" "h < length arr"
      by (simp_all add: l_def h_def)
    from pivotPartition_partitioned [OF lh]
    obtain arr1 lf rt where
      part: "pivotPartition arr low high = Some (arr1, \<lparr>left = int lf, right = int rt\<rparr>)"
      and P: "partitioned arr1 l h lf rt" and f1: "frame arr arr1 low high"
      by blast
    define Pivot where "Pivot = \<lparr>left = int lf, right = int rt\<rparr>"
    have pv: "left Pivot = int lf" "right Pivot = int rt" by (simp_all add: Pivot_def)
    from P have o: "l \<le> lf" "lf < rt" "rt \<le> h" "h < length arr1"
      unfolding partitioned_def by simp_all
    have A1: "all_range arr1 (int l) (int lf - 1) (\<lambda>x. x <s arr1 ! lf)"
      using P unfolding partitioned_def all_range_def by simp
    have B1: "all_range arr1 (int lf + 1) (int rt - 1)
        (\<lambda>x. \<not> x <s arr1 ! lf \<and> \<not> arr1 ! rt <s x)"
      using P unfolding partitioned_def all_range_def by simp
    have C1: "all_range arr1 (int rt + 1) (int h) (\<lambda>x. arr1 ! rt <s x)"
      using P unfolding partitioned_def all_range_def by simp
    have D1: "\<not> arr1 ! rt <s arr1 ! lf"
      using P unfolding partitioned_def by simp
    note part' = part [folded Pivot_def]
    have "0 \<le> low" "left Pivot - 1 < int (length arr1)" using lh o by (simp_all add: pv)
    from "1.IH"(1) [OF False part' refl this]
    obtain arr2 where
      s2: "dualPivotQuickSort arr1 low (left Pivot - 1) = Some arr2"
      and f2: "frame arr1 arr2 (int l) (int lf - 1)"
      and r2: "sorted_range arr2 (int l) (int lf - 1)"
      by (auto simp: pv lh)
    have len2: "length arr2 = length arr1" using f2 by (rule frame_length)
    have "0 \<le> left Pivot + 1" "right Pivot - 1 < int (length arr2)"
      using o by (simp_all add: pv len2)
    from "1.IH"(2) [OF False part' refl s2 this]
    obtain arr3 where
      s3: "dualPivotQuickSort arr2 (left Pivot + 1) (right Pivot - 1) = Some arr3"
      and f3: "frame arr2 arr3 (int lf + 1) (int rt - 1)"
      and r3: "sorted_range arr3 (int lf + 1) (int rt - 1)"
      by (auto simp: pv)
    have len3: "length arr3 = length arr1" using frame_length [OF f3] len2 by simp
    have "0 \<le> right Pivot + 1" "high < int (length arr3)"
      using o by (simp_all add: pv len3 lh)
    from "1.IH"(3) [OF False part' refl s2 s3 this]
    obtain arr4 where
      s4: "dualPivotQuickSort arr3 (right Pivot + 1) high = Some arr4"
      and f4: "frame arr3 arr4 (int rt + 1) (int h)"
      and r4: "sorted_range arr4 (int rt + 1) (int h)"
      by (auto simp: pv lh)
    have len4: "length arr4 = length arr1" using frame_length [OF f4] len3 by simp
    have res: "dualPivotQuickSort arr low high = Some arr4"
      using False part' s2 s3 s4 by (subst dualPivotQuickSort.simps) simp
    have fr: "frame arr arr4 low high"
    proof -
      have "frame arr1 arr2 low high"
        using frame_trans [OF frame_refl f2, of "int l" "int h"] o by (simp add: lh)
      moreover have "frame arr2 arr3 low high"
        using frame_trans [OF frame_refl f3, of "int l" "int h"] o by (simp add: lh)
      moreover have "frame arr3 arr4 low high"
        using frame_trans [OF frame_refl f4, of "int l" "int h"] o by (simp add: lh)
      ultimately show ?thesis using f1 by (meson frame_trans order_refl)
    qed
    have lf4: "arr4 ! lf = arr1 ! lf"
      using frame_nth [OF f2, of lf] frame_nth [OF f3, of lf] frame_nth [OF f4, of lf] o
      by (simp add: len2 len3)
    have rt4: "arr4 ! rt = arr1 ! rt"
      using frame_nth [OF f2, of rt] frame_nth [OF f3, of rt] frame_nth [OF f4, of rt] o
      by (simp add: len2 len3)
    have A4: "all_range arr4 (int l) (int lf - 1) (\<lambda>x. x <s arr4 ! lf)"
      unfolding lf4
      by (rule frame_all_outside [OF f4], rule frame_all_outside [OF f3],
          rule frame_all_range [OF f2 _ A1]) (use o in simp_all)
    have B4: "all_range arr4 (int lf + 1) (int rt - 1)
        (\<lambda>x. \<not> x <s arr4 ! lf \<and> \<not> arr4 ! rt <s x)"
      unfolding lf4 rt4
      by (rule frame_all_outside [OF f4], rule frame_all_range [OF f3],
          simp, rule frame_all_outside [OF f2 B1]) (use o in simp_all)
    have C4: "all_range arr4 (int rt + 1) (int h) (\<lambda>x. arr4 ! rt <s x)"
      unfolding rt4
      by (rule frame_all_range [OF f4], simp, rule frame_all_outside [OF f3],
          rule frame_all_outside [OF f2 C1]) (use o in simp_all)
    have sA: "sorted_range arr4 (int l) (int lf - 1)"
      by (rule frame_sorted_outside [OF f4], rule frame_sorted_outside [OF f3 r2])
         (use o in simp_all)
    have sB: "sorted_range arr4 (int lf + 1) (int rt - 1)"
      by (rule frame_sorted_outside [OF f4 r3]) (use o in simp_all)
    have "sorted_range arr4 (int l) (int h)"
      by (rule sorted_range_join [OF o(1,2,3) _ A4 B4 C4 _ sA sB r4])
         (use o D1 in \<open>simp_all add: len4 lf4 rt4\<close>)
    with res fr show ?thesis by (simp add: lh)
  qed
qed

subsection \<open>checkForSort\<close>

lemma checkForSort_loop_adjacent:
  "i = int m \<Longrightarrow> 1 \<le> m \<Longrightarrow> n = int (length arr) \<Longrightarrow>
   checkForSort_loop arr n i =
     Some (\<forall>k. m \<le> k \<and> k < length arr \<longrightarrow> \<not> arr ! k <s arr ! (k - 1))"
proof (induction arr n i arbitrary: m rule: checkForSort_loop.induct)
  case (1 arr n i)
  note p = "1.prems"
  show ?case
  proof (cases "i < n")
    case False
    with p have stop: "\<not> m < length arr" by simp
    have "\<forall>k. m \<le> k \<and> k < length arr \<longrightarrow> \<not> arr ! k <s arr ! (k - 1)"
    proof (intro allI impI)
      fix k assume "m \<le> k \<and> k < length arr"
      with stop have False by arith
      then show "\<not> arr ! k <s arr ! (k - 1)" ..
    qed
    moreover from False have "checkForSort_loop arr n i = Some True"
      by (subst checkForSort_loop.simps) simp
    ultimately show ?thesis by simp
  next
    case True
    with p have m: "m < length arr" "m - 1 < length arr" by simp_all
    have ra: "rd arr i = Some (arr ! m)"
      unfolding p(1) using m(1) by (rule rd_int)
    have "i - 1 = int (m - 1)" using p by simp
    then have rb: "rd arr (i - 1) = Some (arr ! (m - 1))"
      using m(2) by (simp add: rd_int)
    show ?thesis
    proof (cases "arr ! m <s arr ! (m - 1)")
      case down: True
      with True ra rb have "checkForSort_loop arr n i = Some False"
        by (subst checkForSort_loop.simps) simp
      moreover from down m(1)
      have "\<not> (\<forall>k. m \<le> k \<and> k < length arr \<longrightarrow> \<not> arr ! k <s arr ! (k - 1))"
        by blast
      ultimately show ?thesis by simp
    next
      case up: False
      have "i + 1 = int (m + 1)" using p by simp
      from "1.IH" [OF True ra rb up this _ p(3)]
      have "checkForSort_loop arr n (i + 1) =
          Some (\<forall>k. m + 1 \<le> k \<and> k < length arr \<longrightarrow> \<not> arr ! k <s arr ! (k - 1))"
        by simp
      with True ra rb up have "checkForSort_loop arr n i =
          Some (\<forall>k. m + 1 \<le> k \<and> k < length arr \<longrightarrow> \<not> arr ! k <s arr ! (k - 1))"
        by (subst checkForSort_loop.simps) simp
      moreover have "(\<forall>k. m + 1 \<le> k \<and> k < length arr \<longrightarrow> \<not> arr ! k <s arr ! (k - 1))
          \<longleftrightarrow> (\<forall>k. m \<le> k \<and> k < length arr \<longrightarrow> \<not> arr ! k <s arr ! (k - 1))"
        (is "?L \<longleftrightarrow> ?R")
      proof
        assume L: ?L
        show ?R
        proof (intro allI impI)
          fix k assume k: "m \<le> k \<and> k < length arr"
          show "\<not> arr ! k <s arr ! (k - 1)"
          proof (cases "k = m")
            case True
            with up show ?thesis by simp
          next
            case False
            with k have "m + 1 \<le> k \<and> k < length arr" by simp
            with L show ?thesis by blast
          qed
        qed
      next
        assume R: ?R
        show ?L
        proof (intro allI impI)
          fix k assume "m + 1 \<le> k \<and> k < length arr"
          then have "m \<le> k \<and> k < length arr" by simp
          with R show "\<not> arr ! k <s arr ! (k - 1)" by blast
        qed
      qed
      ultimately show ?thesis by simp
    qed
  qed
qed

lemma checkForSort_sorted:
  assumes "n = int (length arr)"
  shows "checkForSort arr n = Some (sorted (map sint arr))"
proof -
  have "sorted (map sint arr) \<longleftrightarrow>
      (\<forall>k. 1 \<le> k \<and> k < length arr \<longrightarrow> \<not> arr ! k <s arr ! (k - 1))" (is "?L \<longleftrightarrow> ?R")
  proof
    assume L: ?L
    show ?R
    proof (intro allI impI)
      fix k assume k: "1 \<le> k \<and> k < length arr"
      then have k': "Suc (k - 1) < length (map sint arr)" "k - 1 < length arr" "Suc (k - 1) = k"
        by (simp, arith, simp)
      with L have "map sint arr ! (k - 1) \<le> map sint arr ! Suc (k - 1)"
        unfolding sorted_iff_nth_Suc by blast
      with k k'(2,3) have "sint (arr ! (k - 1)) \<le> sint (arr ! k)" by simp
      then show "\<not> arr ! k <s arr ! (k - 1)" by (simp add: word_sless_alt)
    qed
  next
    assume R: ?R
    show ?L
      unfolding sorted_iff_nth_Suc
    proof (intro allI impI)
      fix i assume i: "Suc i < length (map sint arr)"
      then have "1 \<le> Suc i \<and> Suc i < length arr" by simp
      with R have "\<not> arr ! Suc i <s arr ! (Suc i - 1)" by blast
      with i show "map sint arr ! i \<le> map sint arr ! Suc i" by (simp add: word_sless_alt)
    qed
  qed
  with checkForSort_loop_adjacent [of 1 1 n arr] assms show ?thesis
    by (simp add: checkForSort_def)
qed

subsection \<open>Sorting a copy and comparing\<close>

lemma sorted_range_whole:
  assumes "sorted_range arr 0 (int (length arr) - 1)"
  shows "sorted (map sint arr)"
  unfolding sorted_iff_nth_mono
proof (intro allI impI)
  fix i j assume ij: "i \<le> j" "j < length (map sint arr)"
  then have "sint (arr ! i) \<le> sint (arr ! j)"
    using sorted_rangeD [OF assms, of i j] by simp
  with ij show "map sint arr ! i \<le> map sint arr ! j" by simp
qed

lemma inj_sint: "inj (sint :: cint \<Rightarrow> int)"
  by (rule injI) (rule signed_word_eqI)

text \<open>
  Claim C3. For an array \<open>A\<close> of length \<open>n\<close>, \<^verbatim>\<open>checkForSort(A, n)\<close> is true exactly
  when \<^verbatim>\<open>dualPivotQuickSort(copy, 0, n-1)\<close> on a copy of \<open>A\<close> leaves an array equal to
  \<open>A\<close> cell by cell. Both calls return; the copy is the same list of values.
\<close>

theorem checkForSort_iff_sort_fixes:
  assumes "n = int (length A)"
  shows "\<exists>A' b. dualPivotQuickSort A 0 (n - 1) = Some A' \<and> checkForSort A n = Some b \<and>
     (b \<longleftrightarrow> A' = A)"
proof -
  from dualPivotQuickSort_sorts [of 0 "n - 1" A] assms
  obtain A' where s: "dualPivotQuickSort A 0 (n - 1) = Some A'"
    and fr: "frame A A' 0 (n - 1)" and sr: "sorted_range A' 0 (n - 1)"
    by auto
  have len: "length A' = length A" using fr by (rule frame_length)
  have ms: "mset A' = mset A" using fr by (rule frame_mset)
  have srt: "sorted (map sint A')"
    by (rule sorted_range_whole) (use sr assms len in simp)
  have "sorted (map sint A) \<longleftrightarrow> A' = A"
  proof
    assume "sorted (map sint A)"
    then have "sort (map sint A) = map sint A"
      by (rule sorted_sort_id)
    moreover have "mset (map sint A') = mset (map sint A)" using ms by simp
    from properties_for_sort [OF this srt] have "sort (map sint A) = map sint A'" .
    ultimately have "map sint A' = map sint A" by simp
    then show "A' = A" using inj_sint by simp
  next
    assume "A' = A"
    with srt show "sorted (map sint A)" by simp
  qed
  with s checkForSort_sorted [OF assms] show ?thesis by simp
qed

theorem checkForSort_iff_sort_fixes_witness:
  "(5::int) = int (length [4, 7, 2, 9, 1 :: cint]) \<and>
   dualPivotQuickSort [4, 7, 2, 9, 1] 0 (5 - 1) = Some [1, 2, 4, 7, 9] \<and>
   checkForSort [4, 7, 2, 9, 1] 5 = Some False"
proof -
  have h: "(5::int) = int (length [4, 7, 2, 9, 1 :: cint])" by simp
  have e: "dualPivotQuickSort [4, 7, 2, 9, 1] 0 (5 - 1) = Some [1, 2, 4, 7, 9]"
    by (simp add: dualPivotQuickSort.simps pivotPartition_def pivotPartition_loop.simps
        swapNumbers_def rd_def wr_def word_sless_alt)
  from checkForSort_iff_sort_fixes [OF h] e show ?thesis by auto
qed

section \<open>Properties of sumAllElements\<close>

lemma sumAllElements_loop_returns:
  "0 \<le> i \<Longrightarrow> n \<le> int (length arr) \<Longrightarrow> \<exists>s. sumAllElements_loop arr n i acc = Some s"
proof (induction arr n i acc rule: sumAllElements_loop.induct)
  case (1 arr n i acc)
  show ?case
  proof (cases "i < n")
    case True
    with "1.prems" have r: "rd arr i = Some (arr ! nat i)" by (simp add: rd_Some)
    from True "1.prems" "1.IH" [OF True r] show ?thesis
      by (subst sumAllElements_loop.simps) (simp add: r)
  next
    case False
    then show ?thesis by (subst sumAllElements_loop.simps) simp
  qed
qed

text \<open>
  Claim C4. For a buffer holding at least \<open>n\<close> cells, whatever their values,
  \<^verbatim>\<open>sumAllElements(arr, n)\<close> returns 0: the loop runs to its end, and the sum it
  accumulated is dropped.
\<close>

theorem sumAllElements_returns_zero:
  "n \<le> int (length arr) \<Longrightarrow> sumAllElements arr n = Some 0"
  using sumAllElements_loop_returns [of 0 n arr 0]
  by (auto simp: sumAllElements_def)

theorem sumAllElements_returns_zero_witness:
  "(4::int) \<le> int (length [1, 2, 3, 4 :: cint]) \<and> sumAllElements [1, 2, 3, 4] 4 = Some 0"
  using sumAllElements_returns_zero [of 4 "[1, 2, 3, 4]"] by simp

section \<open>Properties of concatenateTwoArrays\<close>

lemma concat_both_nth:
  "i = int m \<Longrightarrow> size1 = int (length arr1) \<Longrightarrow> size2 = int (length arr2) \<Longrightarrow>
   length new_array = length arr1 + length arr2 \<Longrightarrow>
   \<exists>new'. concat_both new_array arr1 size1 arr2 size2 i =
       Some (new', int (max m (min (length arr1) (length arr2)))) \<and>
     length new' = length new_array \<and>
     (\<forall>k<length new_array. new' ! k =
        (if m \<le> k \<and> k < min (length arr1) (length arr2) then arr1 ! k
         else if length arr1 + m \<le> k \<and> k < length arr1 + min (length arr1) (length arr2)
         then arr2 ! (k - length arr1) else new_array ! k))"
proof (induction new_array arr1 size1 arr2 size2 i arbitrary: m rule: concat_both.induct)
  case (1 new_array arr1 size1 arr2 size2 i)
  define s1 where "s1 = length arr1"
  define s2 where "s2 = length arr2"
  note p = "1.prems" [folded s1_def s2_def]
  show ?case unfolding s1_def [symmetric] s2_def [symmetric]
  proof (cases "i < size1 \<and> i < size2")
    case False
    then have stop: "\<not> (m < s1 \<and> m < s2)" using p by simp
    from False have "concat_both new_array arr1 size1 arr2 size2 i = Some (new_array, i)"
      by (subst concat_both.simps) (simp only: if_False)
    moreover from stop have "max m (min s1 s2) = m" by arith
    moreover have "\<forall>k<length new_array. new_array ! k =
        (if m \<le> k \<and> k < min s1 s2 then arr1 ! k
         else if s1 + m \<le> k \<and> k < s1 + min s1 s2 then arr2 ! (k - s1) else new_array ! k)"
      using stop by auto
    ultimately show "\<exists>new'. concat_both new_array arr1 size1 arr2 size2 i = Some (new', int (max m (min s1 s2))) \<and>
     length new' = length new_array \<and>
     (\<forall>k<length new_array. new' ! k =
        (if m \<le> k \<and> k < min s1 s2 then arr1 ! k
         else if s1 + m \<le> k \<and> k < s1 + min s1 s2 then arr2 ! (k - s1) else new_array ! k))"
      using p(1) by simp
  next
    case True
    then have go: "m < s1" "m < s2" using p by simp_all
    have r1: "rd arr1 i = Some (arr1 ! m)"
      unfolding p(1) by (rule rd_int) (use go in \<open>simp add: s1_def\<close>)
    define new1 where "new1 = new_array[m := arr1 ! m]"
    have w1: "wr new_array i (arr1 ! m) = Some new1"
      unfolding p(1) new1_def by (rule wr_int) (use go p(4) in simp)
    have r2: "rd arr2 i = Some (arr2 ! m)"
      unfolding p(1) by (rule rd_int) (use go in \<open>simp add: s2_def\<close>)
    define new2 where "new2 = new1[s1 + m := arr2 ! m]"
    have j: "size1 + i = int (s1 + m)" using p by simp
    have w2: "wr new1 (size1 + i) (arr2 ! m) = Some new2"
      unfolding j new2_def by (rule wr_int) (use go p(4) in \<open>simp add: new1_def\<close>)
    have len2: "length new2 = s1 + s2" using p(4) by (simp add: new2_def new1_def)
    have "i + 1 = int (m + 1)" using p(1) by simp
    from "1.IH" [OF True r1 w1 r2 w2 this "1.prems"(2,3), folded s1_def s2_def] len2
    obtain new' where res: "concat_both new2 arr1 size1 arr2 size2 (i + 1) =
         Some (new', int (max (m + 1) (min s1 s2)))"
      and len: "length new' = length new2"
      and nth: "\<forall>k<length new2. new' ! k =
        (if m + 1 \<le> k \<and> k < min s1 s2 then arr1 ! k
         else if s1 + (m + 1) \<le> k \<and> k < s1 + min s1 s2 then arr2 ! (k - s1) else new2 ! k)"
      by auto
    have mx: "max (m + 1) (min s1 s2) = max m (min s1 s2)" using go by arith
    have "concat_both new_array arr1 size1 arr2 size2 i = Some (new', int (max m (min s1 s2)))"
      using True r1 w1 r2 w2 res unfolding mx by (subst concat_both.simps) simp
    moreover have "length new' = length new_array" using len len2 p(4) by simp
    moreover have "\<forall>k<length new_array. new' ! k =
        (if m \<le> k \<and> k < min s1 s2 then arr1 ! k
         else if s1 + m \<le> k \<and> k < s1 + min s1 s2 then arr2 ! (k - s1) else new_array ! k)"
    proof (intro allI impI)
      fix k assume k: "k < length new_array"
      then have k2: "k < length new2" using len2 p(4) by simp
      have b: "new2 ! k = (if k = s1 + m then arr2 ! m else if k = m then arr1 ! m else new_array ! k)"
        using k by (simp add: new2_def new1_def nth_list_update)
      show "new' ! k =
        (if m \<le> k \<and> k < min s1 s2 then arr1 ! k
         else if s1 + m \<le> k \<and> k < s1 + min s1 s2 then arr2 ! (k - s1) else new_array ! k)"
        unfolding nth [rule_format, OF k2] b using go by auto
    qed
    ultimately show "\<exists>new'. concat_both new_array arr1 size1 arr2 size2 i = Some (new', int (max m (min s1 s2))) \<and>
     length new' = length new_array \<and>
     (\<forall>k<length new_array. new' ! k =
        (if m \<le> k \<and> k < min s1 s2 then arr1 ! k
         else if s1 + m \<le> k \<and> k < s1 + min s1 s2 then arr2 ! (k - s1) else new_array ! k))"
      by blast
  qed
qed

lemma concat_first_nth:
  "i = int m \<Longrightarrow> size1 = int (length arr1) \<Longrightarrow> length arr1 \<le> length new_array \<Longrightarrow>
   \<exists>new'. concat_first new_array arr1 size1 i = Some (new', int (max m (length arr1))) \<and>
     length new' = length new_array \<and>
     (\<forall>k<length new_array. new' ! k =
        (if m \<le> k \<and> k < length arr1 then arr1 ! k else new_array ! k))"
proof (induction new_array arr1 size1 i arbitrary: m rule: concat_first.induct)
  case (1 new_array arr1 size1 i)
  note p = "1.prems"
  show ?case
  proof (cases "i < size1")
    case False
    then have stop: "\<not> m < length arr1" using p by simp
    from False have "concat_first new_array arr1 size1 i = Some (new_array, i)"
      by (subst concat_first.simps) (simp only: if_False)
    moreover from stop have "max m (length arr1) = m" by arith
    moreover have "\<forall>k<length new_array. new_array ! k =
        (if m \<le> k \<and> k < length arr1 then arr1 ! k else new_array ! k)"
      using stop by auto
    ultimately show ?thesis using p(1) by simp
  next
    case True
    then have go: "m < length arr1" using p by simp
    have r1: "rd arr1 i = Some (arr1 ! m)"
      unfolding p(1) using go by (rule rd_int)
    define new1 where "new1 = new_array[m := arr1 ! m]"
    have w1: "wr new_array i (arr1 ! m) = Some new1"
      unfolding p(1) new1_def by (rule wr_int) (use go p(3) in simp)
    have len1: "length new1 = length new_array" by (simp add: new1_def)
    have "i + 1 = int (m + 1)" using p(1) by simp
    from "1.IH" [OF True r1 w1 this p(2)] p(3) len1
    obtain new' where res: "concat_first new1 arr1 size1 (i + 1) =
         Some (new', int (max (m + 1) (length arr1)))"
      and len: "length new' = length new1"
      and nth: "\<forall>k<length new1. new' ! k =
        (if m + 1 \<le> k \<and> k < length arr1 then arr1 ! k else new1 ! k)"
      by auto
    have mx: "max (m + 1) (length arr1) = max m (length arr1)" using go by arith
    have "concat_first new_array arr1 size1 i = Some (new', int (max m (length arr1)))"
      using True r1 w1 res unfolding mx by (subst concat_first.simps) simp
    moreover have "length new' = length new_array" using len len1 by simp
    moreover have "\<forall>k<length new_array. new' ! k =
        (if m \<le> k \<and> k < length arr1 then arr1 ! k else new_array ! k)"
    proof (intro allI impI)
      fix k assume k: "k < length new_array"
      then have k1: "k < length new1" using len1 by simp
      have b: "new1 ! k = (if k = m then arr1 ! m else new_array ! k)"
        using k by (simp add: new1_def nth_list_update)
      show "new' ! k = (if m \<le> k \<and> k < length arr1 then arr1 ! k else new_array ! k)"
        unfolding nth [rule_format, OF k1] b using go by auto
    qed
    ultimately show ?thesis by blast
  qed
qed

lemma concat_second_nth:
  "i = int m \<Longrightarrow> size1 = int s1 \<Longrightarrow> size2 = int (length arr2) \<Longrightarrow>
   s1 + length arr2 \<le> length new_array \<Longrightarrow>
   \<exists>new' i'. concat_second new_array size1 arr2 size2 i = Some (new', i') \<and>
     length new' = length new_array \<and>
     (\<forall>k<length new_array. new' ! k =
        (if s1 + m \<le> k \<and> k < s1 + length arr2 then arr2 ! (k - s1) else new_array ! k))"
proof (induction new_array size1 arr2 size2 i arbitrary: m rule: concat_second.induct)
  case (1 new_array size1 arr2 size2 i)
  note p = "1.prems"
  show ?case
  proof (cases "i < size2")
    case False
    then have stop: "\<not> m < length arr2" using p by simp
    from False have "concat_second new_array size1 arr2 size2 i = Some (new_array, i)"
      by (subst concat_second.simps) (simp only: if_False)
    moreover have "\<forall>k<length new_array. new_array ! k =
        (if s1 + m \<le> k \<and> k < s1 + length arr2 then arr2 ! (k - s1) else new_array ! k)"
      using stop by auto
    ultimately show ?thesis by simp
  next
    case True
    then have go: "m < length arr2" using p by simp
    have r1: "rd arr2 i = Some (arr2 ! m)"
      unfolding p(1) using go by (rule rd_int)
    define new1 where "new1 = new_array[s1 + m := arr2 ! m]"
    have j: "size1 + i = int (s1 + m)" using p by simp
    have w1: "wr new_array (size1 + i) (arr2 ! m) = Some new1"
      unfolding j new1_def by (rule wr_int) (use go p(4) in simp)
    have len1: "length new1 = length new_array" by (simp add: new1_def)
    have "i + 1 = int (m + 1)" using p(1) by simp
    from "1.IH" [OF True r1 w1 this p(2,3)] p(4) len1
    obtain new' i' where res: "concat_second new1 size1 arr2 size2 (i + 1) = Some (new', i')"
      and len: "length new' = length new1"
      and nth: "\<forall>k<length new1. new' ! k =
        (if s1 + (m + 1) \<le> k \<and> k < s1 + length arr2 then arr2 ! (k - s1) else new1 ! k)"
      by auto
    have "concat_second new_array size1 arr2 size2 i = Some (new', i')"
      using True r1 w1 res by (subst concat_second.simps) simp
    moreover have "length new' = length new_array" using len len1 by simp
    moreover have "\<forall>k<length new_array. new' ! k =
        (if s1 + m \<le> k \<and> k < s1 + length arr2 then arr2 ! (k - s1) else new_array ! k)"
    proof (intro allI impI)
      fix k assume k: "k < length new_array"
      then have k1: "k < length new1" using len1 by simp
      have b: "new1 ! k = (if k = s1 + m then arr2 ! m else new_array ! k)"
        using k by (simp add: new1_def nth_list_update)
      show "new' ! k =
        (if s1 + m \<le> k \<and> k < s1 + length arr2 then arr2 ! (k - s1) else new_array ! k)"
        unfolding nth [rule_format, OF k1] b using go by auto
    qed
    ultimately show ?thesis by blast
  qed
qed

lemma length_malloc_ints: "length (malloc_ints junk n) = nat n"
  by (simp add: malloc_ints_def)

text \<open>
  Claim C6 says that for all arrays \<open>arr1\<close> of length \<open>size1\<close> and \<open>arr2\<close> of length
  \<open>size2\<close> the call returns a new buffer holding \<open>arr1\<close> followed by \<open>arr2\<close>. The sizes
  are C \<^verbatim>\<open>int\<close>s, and so is their sum: for two arrays of \<open>2^30\<close> cells each the sum
  \<open>2^31\<close> is beyond \<open>INT_MAX\<close>, and the call returns no such buffer.
\<close>

theorem concatenateTwoArrays_total_overflows:
  "(1073741824 :: int) = int (length (replicate 1073741824 (0 :: cint))) \<and>
   concatenateTwoArrays of_nat (replicate 1073741824 0) 1073741824
     (replicate 1073741824 0) 1073741824 = None"
  by (simp add: concatenateTwoArrays_def add_int_def INT_MAX_def INT_MIN_def)

text \<open>
  Claim C6, amended. For arrays \<open>arr1\<close> of length \<open>size1\<close> and \<open>arr2\<close> of length \<open>size2\<close>
  with \<open>size1 + size2 \<le> 2147483647\<close> (the largest C \<^verbatim>\<open>int\<close>),
  \<^verbatim>\<open>concatenateTwoArrays(arr1, size1, arr2, size2)\<close> returns a new buffer of
  \<open>size1 + size2\<close> cells holding \<open>arr1\<close> followed by \<open>arr2\<close>, whatever the fresh block
  held before: cell \<open>i\<close> is \<open>arr1[i]\<close> for \<open>i < size1\<close> and \<open>arr2[i - size1]\<close> from there on.
\<close>

theorem concatenateTwoArrays_append:
  assumes "size1 = int (length arr1)" and "size2 = int (length arr2)"
    and "size1 + size2 \<le> 2147483647"
  shows "concatenateTwoArrays junk arr1 size1 arr2 size2 = Some (arr1 @ arr2)"
proof -
  define s1 where "s1 = length arr1"
  define s2 where "s2 = length arr2"
  define new0 where "new0 = malloc_ints junk (size1 + size2)"
  have len0: "length new0 = s1 + s2"
    by (simp add: new0_def length_malloc_ints assms(1,2) s1_def s2_def nat_add_distrib)
  from concat_both_nth [OF _ assms(1,2), of 0 0 new0] len0
  obtain new1 where c1: "concat_both new0 arr1 size1 arr2 size2 0 = Some (new1, int (min s1 s2))"
    and len1: "length new1 = s1 + s2"
    and nth1: "\<forall>k < s1 + s2. new1 ! k =
        (if k < min s1 s2 then arr1 ! k
         else if s1 \<le> k \<and> k < s1 + min s1 s2 then arr2 ! (k - s1) else new0 ! k)"
    by (auto simp: s1_def s2_def)
  from concat_first_nth [OF refl assms(1), of new1 "min s1 s2"] len1
  obtain new2 where c2: "concat_first new1 arr1 size1 (int (min s1 s2)) = Some (new2, int s1)"
    and len2: "length new2 = s1 + s2"
    and nth2: "\<forall>k < s1 + s2. new2 ! k =
        (if min s1 s2 \<le> k \<and> k < s1 then arr1 ! k else new1 ! k)"
    by (auto simp: s1_def)
  have "\<exists>new' i'. concat_second new2 size1 arr2 size2 (int s1) = Some (new', i') \<and>
     length new' = length new2 \<and>
     (\<forall>k<length new2. new' ! k =
        (if s1 + s1 \<le> k \<and> k < s1 + length arr2 then arr2 ! (k - s1) else new2 ! k))"
    by (rule concat_second_nth [OF refl _ assms(2)]) (simp_all add: assms(1) s1_def s2_def len2)
  with len2
  obtain new3 i3 where c3: "concat_second new2 size1 arr2 size2 (int s1) = Some (new3, i3)"
    and len3: "length new3 = s1 + s2"
    and nth3: "\<forall>k < s1 + s2. new3 ! k =
        (if s1 + s1 \<le> k \<and> k < s1 + s2 then arr2 ! (k - s1) else new2 ! k)"
    by (auto simp: s1_def s2_def assms(1,2))
  have "new3 = arr1 @ arr2"
  proof (rule nth_equalityI)
    show "length new3 = length (arr1 @ arr2)" by (simp add: len3 s1_def s2_def)
  next
    fix k assume "k < length new3"
    then have k: "k < s1 + s2" by (simp add: len3)
    have "new3 ! k = (if k < s1 then arr1 ! k else arr2 ! (k - s1))"
      unfolding nth3 [rule_format, OF k] nth2 [rule_format, OF k] nth1 [rule_format, OF k]
      using k by (auto simp: min_def split: if_splits)
    then show "new3 ! k = (arr1 @ arr2) ! k"
      by (simp add: nth_append s1_def)
  qed
  moreover have "add_int size1 size2 = Some (size1 + size2)"
    using assms by (simp add: add_int_def INT_MAX_def INT_MIN_def)
  ultimately show ?thesis
    using c1 c2 c3 by (simp add: concatenateTwoArrays_def new0_def)
qed

theorem concatenateTwoArrays_append_witness:
  "(3::int) = int (length [1, 2, 3 :: cint]) \<and> (2::int) = int (length [4, 5 :: cint]) \<and>
   (3::int) + 2 \<le> 2147483647 \<and>
   concatenateTwoArrays (\<lambda>k. 7) [1, 2, 3] 3 [4, 5] 2 = Some [1, 2, 3, 4, 5]"
proof -
  have h1: "(3::int) = int (length [1, 2, 3 :: cint])" by simp
  have h2: "(2::int) = int (length [4, 5 :: cint])" by simp
  have h3: "(3::int) + 2 \<le> 2147483647" by simp
  from concatenateTwoArrays_append [OF h1 h2 h3, of "\<lambda>k. 7"] show ?thesis by simp
qed

section \<open>Properties of getHashCodeOf\<close>

text \<open>
  Claim C10. For every length \<open>n\<close>, \<^verbatim>\<open>getHashCodeOf(NULL, n)\<close> returns 0, which is
  not the value 1 returned for an empty array.
\<close>

theorem getHashCodeOf_null:
  "getHashCodeOf None n = Some 0 \<and> getHashCodeOf (Some []) 0 = Some 1
   \<and> getHashCodeOf None n \<noteq> getHashCodeOf (Some []) 0"
  by (simp add: getHashCodeOf_def getHashCodeOf_loop.simps)

lemma hash_step_word:
  "uint (h * 19 + scast (v XOR signed_drop_bit 31 v) :: 64 word) = hash_step (uint h) (sint (v :: cint))"
proof -
  have s: "sint (v XOR signed_drop_bit 31 v) = sint v XOR drop_bit 31 (sint v)"
    by (simp add: signed_xor_eq sint_signed_drop_bit_eq)
  have "uint (h * 19 + word_of_int (sint v XOR drop_bit 31 (sint v)) :: 64 word)
      = (uint h * 19 + (sint v XOR drop_bit 31 (sint v))) mod 2 ^ 64"
    by (simp add: uint_word_ariths uint_word_of_int mod_simps)
  then show ?thesis
    by (simp add: hash_step_def scast_eq s)
qed

lemma getHashCodeOf_loop_fold:
  "0 \<le> i \<Longrightarrow> n = int (length arr) \<Longrightarrow>
   \<exists>h'. getHashCodeOf_loop arr n i h = Some h' \<and>
     uint h' = foldl hash_step (uint h) (map sint (drop (nat i) arr))"
proof (induction arr n i h rule: getHashCodeOf_loop.induct)
  case (1 arr n i hash)
  show ?case
  proof (cases "i < n")
    case False
    with "1.prems" show ?thesis
      by (subst getHashCodeOf_loop.simps) simp
  next
    case True
    with "1.prems" have r: "rd arr i = Some (arr ! nat i)" by (simp add: rd_Some)
    from True "1.prems" have d: "drop (nat i) arr = arr ! nat i # drop (nat (i + 1)) arr"
      by (simp add: Cons_nth_drop_Suc nat_add_distrib)
    from "1.prems" have "0 \<le> i + 1" by simp
    from "1.IH" [OF True r refl this "1.prems"(2)]
    obtain h' where h': "getHashCodeOf_loop arr n (i + 1)
          (hash * 19 + scast (arr ! nat i XOR signed_drop_bit 31 (arr ! nat i))) = Some h'"
      and u: "uint h' = foldl hash_step
          (uint (hash * 19 + scast (arr ! nat i XOR signed_drop_bit 31 (arr ! nat i)) :: 64 word))
          (map sint (drop (nat (i + 1)) arr))"
      by blast
    have "getHashCodeOf_loop arr n i hash = Some h'"
      using True r h' by (subst getHashCodeOf_loop.simps) simp
    moreover have "uint h' = foldl hash_step (uint hash) (map sint (drop (nat i) arr))"
      unfolding d u hash_step_word by simp
    ultimately show ?thesis by blast
  qed
qed

text \<open>
  Claim C8. For a non-null array \<open>A\<close> of \<open>n\<close> signed 32-bit integers,
  \<^verbatim>\<open>getHashCodeOf(A, n)\<close> is the fold of the specification over the values of \<open>A\<close>,
  read as an unsigned 64-bit number; for \<open>n = 0\<close> it is 1.
\<close>

theorem getHashCodeOf_fold:
  assumes "n = int (length A)"
  shows "(\<exists>h. getHashCodeOf (Some A) n = Some h \<and> uint h = hashCode_spec (map sint A))
    \<and> getHashCodeOf (Some B) 0 = Some 1"
proof -
  from getHashCodeOf_loop_fold [OF _ assms, of 0 1]
  have "\<exists>h. getHashCodeOf (Some A) n = Some h \<and> uint h = hashCode_spec (map sint A)"
    by (simp add: getHashCodeOf_def hashCode_spec_def)
  moreover have "getHashCodeOf (Some B) 0 = Some 1"
    by (simp add: getHashCodeOf_def getHashCodeOf_loop.simps [of B 0])
  ultimately show ?thesis by blast
qed

theorem getHashCodeOf_fold_witness:
  "(3::int) = int (length [1, - 2, 3 :: cint]) \<and> getHashCodeOf (Some [1, - 2, 3]) 3 = Some 7242
   \<and> hashCode_spec (map sint [1, - 2, 3 :: cint]) = 7242 \<and> getHashCodeOf (Some []) 0 = Some 1"
proof -
  have h: "(3::int) = int (length [1, - 2, 3 :: cint])" by simp
  have e: "getHashCodeOf (Some [1, - 2, 3]) 3 = Some 7242"
    by (simp add: getHashCodeOf_def getHashCodeOf_loop.simps rd_def)
  have s: "hashCode_spec (map sint [1, - 2, 3 :: cint]) = 7242"
    by (simp add: hashCode_spec_def hash_step_def)
  from getHashCodeOf_fold [OF h, of "[]"] e s show ?thesis by simp
qed

end
